theory Spec2Isabelle
  imports Complex_Main "HOL-Library.AList"
begin

section \<open>JavaScript values\<close>

text \<open>
  The free-text aggregation engine is the object \<open>TextAggregator\<close> of
  \<open>scripts/FINAI-95/aiProcessorUI.js\<close>.  A JavaScript string is modelled as a
  \<open>string\<close> whose characters are the UTF-16 code units below 256 (the Latin-1 range),
  so \<open>length\<close> is the \<open>.length\<close> of the source.  A number that the source only counts
  with is a \<open>nat\<close>; a number that the source divides or multiplies is a binary64 value,
  modelled as the rational it denotes (see \<open>fl\<close> below).
\<close>

datatype error = TypeError

datatype jsprim = JUndefined | JNull | JBool bool | JNum rat | JStr string

text \<open>The truthiness test of \<open>if (v)\<close>, \<open>v || d\<close> and \<open>!v\<close>.\<close>

fun truthy :: "jsprim \<Rightarrow> bool" where
  "truthy JUndefined = False"
| "truthy JNull = False"
| "truthy (JBool b) = b"
| "truthy (JNum n) = (n \<noteq> 0)"
| "truthy (JStr s) = (s \<noteq> [])"

text \<open>
  One element of the \<open>cleanedData\<close> array: \<open>null\<close>, \<open>undefined\<close>, or an object given by
  its own enumerable properties in \<open>Object.keys\<close> order, with primitive values.
\<close>

datatype jsrecord = RNull | RUndefined | RObj "(string \<times> jsprim) list"

section \<open>String primitives\<close>

text \<open>\<open>\s\<close> and the characters removed by \<open>trim()\<close>: TAB, LF, VT, FF, CR, SP, NBSP.\<close>

definition isSpace :: "char \<Rightarrow> bool" where
  "isSpace c = (c \<in> set [CHR 0x09, CHR 0x0A, CHR 0x0B, CHR 0x0C, CHR 0x0D, CHR 0x20, CHR 0xA0])"

text \<open>\<open>\w\<close>, the word characters that decide \<open>\b\<close>: \<open>[A-Za-z0-9_]\<close>.\<close>

definition isWordChar :: "char \<Rightarrow> bool" where
  "isWordChar c =
     (let n = (of_char c :: nat)
      in (65 \<le> n \<and> n \<le> 90) \<or> (97 \<le> n \<and> n \<le> 122) \<or> (48 \<le> n \<and> n \<le> 57) \<or> n = 95)"

text \<open>The line terminators that \<open>.\<close> does not match.\<close>

definition isLineTerminator :: "char \<Rightarrow> bool" where
  "isLineTerminator c = (c = CHR 0x0A \<or> c = CHR 0x0D)"

definition toLowerChar :: "char \<Rightarrow> char" where
  "toLowerChar c =
     (let n = (of_char c :: nat)
      in if (65 \<le> n \<and> n \<le> 90) \<or> (192 \<le> n \<and> n \<le> 222 \<and> n \<noteq> 215)
         then char_of (n + 32) else c)"

definition toLowerCase :: "string \<Rightarrow> string" where
  "toLowerCase s = map toLowerChar s"

text \<open>The case folding of a regular expression with the \<open>i\<close> flag (to upper case).\<close>

definition canonicalize :: "char \<Rightarrow> char" where
  "canonicalize c =
     (let n = (of_char c :: nat)
      in if (97 \<le> n \<and> n \<le> 122) \<or> (224 \<le> n \<and> n \<le> 254 \<and> n \<noteq> 247)
         then char_of (n - 32) else c)"

definition trim :: "string \<Rightarrow> string" where
  "trim s = rev (dropWhile isSpace (rev (dropWhile isSpace s)))"

text \<open>\<open>s.split(/\s+/)\<close>: the pieces between maximal runs of white space.\<close>

primrec split_ws_aux :: "bool \<Rightarrow> string \<Rightarrow> string \<Rightarrow> string list" where
  "split_ws_aux insep cur [] = [rev cur]"
| "split_ws_aux insep cur (c # cs) =
     (if isSpace c
      then (if insep then split_ws_aux True cur cs else rev cur # split_ws_aux True [] cs)
      else split_ws_aux False (c # cur) cs)"

definition split_ws :: "string \<Rightarrow> string list" where
  "split_ws s = split_ws_aux False [] s"

text \<open>\<open>s.split(ch)\<close> for a one-character separator.\<close>

primrec split_char_aux :: "char \<Rightarrow> string \<Rightarrow> string \<Rightarrow> string list" where
  "split_char_aux sep cur [] = [rev cur]"
| "split_char_aux sep cur (c # cs) =
     (if c = sep then rev cur # split_char_aux sep [] cs else split_char_aux sep (c # cur) cs)"

definition split_char :: "char \<Rightarrow> string \<Rightarrow> string list" where
  "split_char sep s = split_char_aux sep [] s"

text \<open>\<open>xs.join(sep)\<close>.\<close>

fun join :: "string \<Rightarrow> string list \<Rightarrow> string" where
  "join sep [] = []"
| "join sep [x] = x"
| "join sep (x # y # ys) = x @ sep @ join sep (y # ys)"

text \<open>
  \<open>[...new Set(xs)]\<close>: the distinct elements in order of first occurrence, and
  \<open>set.add(x)\<close> on a set kept in insertion order.
\<close>

definition set_add :: "'a \<Rightarrow> 'a list \<Rightarrow> 'a list" where
  "set_add x xs = (if x \<in> set xs then xs else xs @ [x])"

definition new_Set :: "'a list \<Rightarrow> 'a list" where
  "new_Set xs = foldl (\<lambda>acc x. set_add x acc) [] xs"

section \<open>Regular expressions\<close>

text \<open>
  The regular expressions of the source are sequences of literal characters, \<open>c?\<close>,
  \<open>c+\<close> and \<open>.*\<close>, optionally anchored with \<open>^\<close> and \<open>$\<close>, optionally with the \<open>i\<close>
  flag.  \<open>rx_at\<close> decides whether the atoms match at the start of the string (up to its
  end when \<open>$\<close> is present); \<open>test\<close> without \<open>^\<close> tries every start position.
\<close>

datatype atom = Lit char | OptLit char | PlusLit char | DotStar

datatype regex = Regex (bol: bool) (atoms: "atom list") (eol: bool) (icase: bool)

definition chr_eq :: "bool \<Rightarrow> char \<Rightarrow> char \<Rightarrow> bool" where
  "chr_eq ic p c = (if ic then canonicalize p = canonicalize c else p = c)"

fun rx_at :: "bool \<Rightarrow> bool \<Rightarrow> atom list \<Rightarrow> string \<Rightarrow> bool" where
  "rx_at ic e [] s = (if e then s = [] else True)"
| "rx_at ic e (Lit p # as) [] = False"
| "rx_at ic e (Lit p # as) (c # cs) = (chr_eq ic p c \<and> rx_at ic e as cs)"
| "rx_at ic e (OptLit p # as) [] = rx_at ic e as []"
| "rx_at ic e (OptLit p # as) (c # cs) =
     ((chr_eq ic p c \<and> rx_at ic e as cs) \<or> rx_at ic e as (c # cs))"
| "rx_at ic e (PlusLit p # as) [] = False"
| "rx_at ic e (PlusLit p # as) (c # cs) =
     (chr_eq ic p c \<and> (rx_at ic e (PlusLit p # as) cs \<or> rx_at ic e as cs))"
| "rx_at ic e (DotStar # as) [] = rx_at ic e as []"
| "rx_at ic e (DotStar # as) (c # cs) =
     ((\<not> isLineTerminator c \<and> rx_at ic e (DotStar # as) cs) \<or> rx_at ic e as (c # cs))"

fun rx_search :: "bool \<Rightarrow> bool \<Rightarrow> atom list \<Rightarrow> string \<Rightarrow> bool" where
  "rx_search ic e as [] = rx_at ic e as []"
| "rx_search ic e as (c # cs) = (rx_at ic e as (c # cs) \<or> rx_search ic e as cs)"

definition rx_test :: "regex \<Rightarrow> string \<Rightarrow> bool" where
  "rx_test r s =
     (if bol r then rx_at (icase r) (eol r) (atoms r) s
      else rx_search (icase r) (eol r) (atoms r) s)"

text \<open>A literal word as atoms, and the pattern \<open>/^word$/\<close>.\<close>

definition lits :: "string \<Rightarrow> atom list" where
  "lits w = map Lit w"

definition anchored :: "atom list \<Rightarrow> regex" where
  "anchored as = Regex True as True False"

section \<open>Validity filter\<close>

definition invalidPatterns :: "regex list" where
  "invalidPatterns =
     [anchored [Lit CHR ''n'', OptLit CHR ''/'', Lit CHR ''a''],
      anchored (lits ''none''),
      anchored (lits ''no''),
      anchored (lits ''nothing''),
      anchored (lits ''nil''),
      anchored [PlusLit CHR ''-''],
      anchored [PlusLit CHR ''.''],
      anchored (lits ''na''),
      anchored (lits ''not applicable''),
      anchored (lits ''no comment''),
      anchored (lits ''nope''),
      anchored (lits ''nada'')]"

fun isValidTextResponse :: "jsprim \<Rightarrow> bool" where
  "isValidTextResponse (JStr v) =
     (let normalized = trim (toLowerCase v)
      in if list_ex (\<lambda>pattern. rx_test pattern normalized) invalidPatterns then False
         else length (trim v) > 8)"
| "isValidTextResponse _ = False"

section \<open>Theme label\<close>

definition themeKeywords :: "(string \<times> string list) list" where
  "themeKeywords =
     [(''communication_transparency'',
        [''communication'', ''communicate'', ''talk'', ''discuss'', ''share'', ''inform'', ''update'',
         ''transparency'', ''information'', ''feedback'', ''meeting'', ''clarity'', ''clear'']),
      (''tools_technology'',
        [''tools'', ''software'', ''system'', ''technology'', ''equipment'', ''resources'', ''platform'',
         ''application'', ''technical'', ''tech'', ''digital'', ''infrastructure'']),
      (''training_development'',
        [''training'', ''learn'', ''development'', ''skills'', ''education'', ''growth'', ''course'',
         ''mentor'', ''knowledge'', ''professional'', ''career'', ''advancement'']),
      (''recognition_appreciation'',
        [''recognition'', ''appreciate'', ''acknowledge'', ''reward'', ''praise'', ''thanks'',
         ''credit'', ''valued'', ''recognized'', ''celebration'']),
      (''autonomy_empowerment'',
        [''autonomy'', ''freedom'', ''decision'', ''empowered'', ''control'', ''choice'', ''independence'',
         ''empower'', ''decisions'', ''authority'', ''ownership'']),
      (''process_efficiency'',
        [''process'', ''procedure'', ''workflow'', ''efficiency'', ''streamline'', ''bureaucracy'',
         ''improve'', ''optimization'', ''faster'', ''easier'', ''simple'']),
      (''leadership_management'',
        [''leadership'', ''management'', ''manager'', ''leader'', ''supervisor'', ''boss'',
         ''direction'', ''guidance'', ''support'', ''lead'']),
      (''workload_balance'',
        [''workload'', ''busy'', ''overwhelmed'', ''balance'', ''time'', ''bandwidth'', ''capacity'',
         ''stress'', ''pressure'', ''deadline'', ''priorities'']),
      (''culture_environment'',
        [''culture'', ''environment'', ''atmosphere'', ''team'', ''collaboration'', ''morale'',
         ''workplace'', ''office'', ''culture'', ''values'', ''belonging'']),
      (''compensation_benefits'',
        [''compensation'', ''salary'', ''pay'', ''benefits'', ''money'', ''raise'', ''bonus'',
         ''financial'', ''wage'', ''income'', ''cost_of_living'']),
      (''remote_flexibility'',
        [''remote'', ''hybrid'', ''home'', ''office'', ''flexible'', ''flexibility'', ''location'',
         ''commute'', ''work_from_home'', ''telework''])]"

definition themeStoplist :: "string list" where
  "themeStoplist =
     [''would'', ''could'', ''should'', ''more'', ''better'', ''need'', ''want'', ''really'',
      ''think'', ''feel'']"

text \<open>The score of one dictionary: \<open>matches + (keywords.some(...) ? 1 : 0)\<close>.\<close>

definition themeScore :: "string list \<Rightarrow> string list \<Rightarrow> nat" where
  "themeScore words keywords =
     (let matches = length (filter (\<lambda>keyword. keyword \<in> set words) keywords)
      in matches + (if list_ex (\<lambda>k. k \<in> set words) keywords then 1 else 0))"

text \<open>The body of the \<open>forEach\<close> over the dictionaries, on \<open>(bestTheme, bestScore)\<close>.\<close>

definition themeStep :: "string list \<Rightarrow> string \<times> nat \<Rightarrow> string \<times> string list \<Rightarrow> string \<times> nat" where
  "themeStep words best entry =
     (let score = themeScore words (snd entry)
      in if score > snd best then (fst entry, score) else best)"

definition enhancedExtractTheme :: "string \<Rightarrow> string" where
  "enhancedExtractTheme txt =
     (let words = split_ws (toLowerCase txt);
          best = foldl (themeStep words) (''other'', 0) themeKeywords;
          bestTheme = fst best;
          bestScore = snd best
      in if bestTheme = ''other'' \<and> bestScore = 0
         then (let meaningfulWords =
                     filter (\<lambda>w. length w > 4 \<and> w \<notin> set themeStoplist) words
               in if length meaningfulWords > 0 then join ''_'' (take 2 meaningfulWords)
                  else bestTheme)
         else bestTheme)"

section \<open>Cleaning, normalisation and semantic tokens\<close>

text \<open>
  \<open>s.replace(/\bW\b/g, r)\<close> for a pattern \<open>W\<close> made of word characters: a match is a
  maximal run of word characters (a whole word) that \<open>W\<close> accepts.  \<open>replaceWords f s\<close>
  walks \<open>s\<close>, collecting the current word in \<open>cur\<close> (reversed), and puts \<open>f w\<close> in place
  of every whole word \<open>w\<close>; \<open>f\<close> returns the word itself where the pattern does not match.
\<close>

primrec replaceWords_aux :: "(string \<Rightarrow> string) \<Rightarrow> string \<Rightarrow> string \<Rightarrow> string" where
  "replaceWords_aux f cur [] = (if cur = [] then [] else f (rev cur))"
| "replaceWords_aux f cur (c # cs) =
     (if isWordChar c then replaceWords_aux f (c # cur) cs
      else (if cur = [] then [] else f (rev cur)) @ c # replaceWords_aux f [] cs)"

definition replaceWords :: "(string \<Rightarrow> string) \<Rightarrow> string \<Rightarrow> string" where
  "replaceWords f s = replaceWords_aux f [] s"

text \<open>The filler patterns \<open>/\buh+\b/gi\<close>, \<open>/\bum+\b/gi\<close>, \<open>/\ber+\b/gi\<close> on a whole word.\<close>

definition isFiller :: "char \<Rightarrow> char \<Rightarrow> string \<Rightarrow> bool" where
  "isFiller a b w = rx_at True True [Lit a, PlusLit b] w"

text \<open>
  \<open>s.replace(/\s{2,}/g, r)\<close>: every maximal run of two or more white-space characters
  is replaced by \<open>r\<close>; \<open>run\<close> is the run of white space read so far (reversed).
\<close>

primrec replaceSpaceRuns_aux :: "string \<Rightarrow> string \<Rightarrow> string \<Rightarrow> string" where
  "replaceSpaceRuns_aux r run [] = (if length run \<ge> 2 then r else rev run)"
| "replaceSpaceRuns_aux r run (c # cs) =
     (if isSpace c then replaceSpaceRuns_aux r (c # run) cs
      else (if length run \<ge> 2 then r else rev run) @ c # replaceSpaceRuns_aux r [] cs)"

definition replaceSpaceRuns :: "string \<Rightarrow> string \<Rightarrow> string" where
  "replaceSpaceRuns r s = replaceSpaceRuns_aux r [] s"

text \<open>\<open>s.lastIndexOf(ch)\<close>, \<open>-1\<close> when absent.\<close>

definition lastIndexOf :: "char \<Rightarrow> string \<Rightarrow> int" where
  "lastIndexOf ch s =
     (case filter (\<lambda>i. s ! i = ch) (rev [0..<length s]) of [] \<Rightarrow> - 1 | i # _ \<Rightarrow> int i)"

text \<open>
  In the source the test \<open>pattern === /\s{2,}/g\<close> compares a regular-expression object
  with a fresh literal, which is never the same object: the replacement is \<open>''\<close> for all
  four patterns, also for the runs of white space.
\<close>

definition enhancedCleanTextResponse :: "string \<Rightarrow> string" where
  "enhancedCleanTextResponse txt =
     (let cleaned0 = trim txt;
          cleaned1 = replaceWords (\<lambda>w. if isFiller CHR ''u'' CHR ''h'' w then [] else w) cleaned0;
          cleaned2 = replaceWords (\<lambda>w. if isFiller CHR ''u'' CHR ''m'' w then [] else w) cleaned1;
          cleaned3 = replaceWords (\<lambda>w. if isFiller CHR ''e'' CHR ''r'' w then [] else w) cleaned2;
          cleaned4 = replaceSpaceRuns [] cleaned3;
          cleaned = trim cleaned4
      in if length cleaned > 500
         then (let truncated = take 500 cleaned;
                   lastPeriod = lastIndexOf CHR ''.'' truncated;
                   lastExclamation = lastIndexOf CHR ''!'' truncated;
                   lastQuestion = lastIndexOf CHR ''?'' truncated;
                   lastSentenceEnd = max (max lastPeriod lastExclamation) lastQuestion
               in if lastSentenceEnd > 400 then take (nat (lastSentenceEnd + 1)) truncated
                  else truncated)
         else cleaned)"

definition normalizations :: "(string \<times> string) list" where
  "normalizations =
     [(''mgmt'', ''management''), (''mgr'', ''manager''), (''comm'', ''communication''),
      (''dev'', ''development''), (''info'', ''information''), (''tech'', ''technology''),
      (''sys'', ''system''), (''proc'', ''process''), (''dept'', ''department''),
      (''org'', ''organization'')]"

definition normalizeForClustering :: "string \<Rightarrow> string" where
  "normalizeForClustering txt =
     foldl (\<lambda>normalized entry.
              replaceWords (\<lambda>w. if w = fst entry then snd entry else w) normalized)
       (toLowerCase txt) normalizations"

definition semanticCategories :: "(string \<times> string list) list" where
  "semanticCategories =
     [(''communication'', [''communication'', ''talk'', ''discuss'', ''share'', ''inform'', ''update'',
         ''meeting'', ''feedback'', ''transparency'']),
      (''tools'', [''tools'', ''software'', ''system'', ''technology'', ''platform'', ''equipment'',
         ''resources'', ''application'']),
      (''development'', [''training'', ''learning'', ''development'', ''skills'', ''education'',
         ''growth'', ''course'', ''mentor'']),
      (''process'', [''process'', ''procedure'', ''workflow'', ''efficiency'', ''streamline'',
         ''bureaucracy'', ''red_tape'']),
      (''management'', [''management'', ''manager'', ''leadership'', ''supervisor'', ''boss'',
         ''lead'', ''director'']),
      (''culture'', [''culture'', ''environment'', ''atmosphere'', ''team'', ''collaboration'',
         ''morale'', ''values'']),
      (''recognition'', [''recognition'', ''appreciate'', ''acknowledge'', ''reward'', ''praise'',
         ''thanks'', ''credit'']),
      (''autonomy'', [''autonomy'', ''freedom'', ''decision'', ''empowered'', ''control'', ''choice'',
         ''independence'']),
      (''workload'', [''workload'', ''busy'', ''overwhelmed'', ''balance'', ''time'', ''bandwidth'',
         ''capacity'', ''stress'']),
      (''clarity'', [''clarity'', ''clear'', ''understand'', ''direction'', ''goals'', ''expectations'',
         ''vision'', ''purpose''])]"

definition extractSemanticTokens :: "string \<Rightarrow> string list" where
  "extractSemanticTokens txt =
     (let words = split_ws (toLowerCase txt);
          tokens = map fst (filter (\<lambda>entry. list_ex (\<lambda>keyword. keyword \<in> set words) (snd entry))
                                 semanticCategories);
          importantWords =
            filter (\<lambda>w. length w > 5 \<and>
                         w \<notin> set [''better'', ''would'', ''could'', ''should'', ''really'', ''think''])
              words
      in new_Set (tokens @ take 3 importantWords))"

section \<open>Binary64 arithmetic\<close>

text \<open>
  A finite double is the rational it denotes.  \<open>fl x\<close> is \<open>x\<close> rounded to the nearest
  binary64 value, ties to even: a 53-bit significand, exponents from \<open>-1022\<close> (below
  that the spacing stays \<open>2^-1074\<close>).  Every quantity of this engine is bounded by the
  length of a string or of an array, far below the overflow threshold \<open>2^1024\<close>, so
  infinities and NaN do not arise.  Each arithmetic operation of the source is the exact
  operation followed by \<open>fl\<close>, and a decimal literal is \<open>fl\<close> of its value.
\<close>

type_synonym double = rat

definition pow2 :: "int \<Rightarrow> rat" where
  "pow2 e = (if 0 \<le> e then of_int (2 ^ nat e) else 1 / of_int (2 ^ nat (- e)))"

text \<open>The number of binary digits of a positive integer.\<close>

function bitlen :: "int \<Rightarrow> int" where
  "bitlen n = (if n \<le> 0 then 0 else 1 + bitlen (n div 2))"
  by pat_completeness auto
termination
  by (relation "measure nat") auto

declare bitlen.simps [simp del]

text \<open>
  For \<open>x > 0\<close>, the exponent \<open>e\<close> with \<open>2^e \<le> x < 2^(e+1)\<close>: one less than the
  number of digits of \<open>\<lfloor>x\<rfloor>\<close> when \<open>x \<ge> 1\<close>, and otherwise minus the least \<open>k\<close> with
  \<open>1 / x \<le> 2^k\<close>.
\<close>

definition ilog2 :: "rat \<Rightarrow> int" where
  "ilog2 x = (if 1 \<le> x then bitlen \<lfloor>x\<rfloor> - 1 else - bitlen (\<lceil>1 / x\<rceil> - 1))"

text \<open>
  With \<open>\<bar>x\<bar> = a / b\<close> and \<open>q = 2^(e - 52)\<close> the spacing of the doubles around \<open>x\<close>,
  \<open>\<bar>x\<bar> / q\<close> is the fraction \<open>num / den\<close>; \<open>n\<close> is its integer part, and the
  remainder, compared with one half, decides the rounding.
\<close>

definition fl :: "rat \<Rightarrow> double" where
  "fl x =
     (if x = 0 then 0
      else (let e = max (ilog2 \<bar>x\<bar>) (- 1022);
                k = 52 - e;
                a = fst (quotient_of \<bar>x\<bar>);
                b = snd (quotient_of \<bar>x\<bar>);
                num = (if 0 \<le> k then a * 2 ^ nat k else a);
                den = (if 0 \<le> k then b else b * 2 ^ nat (- k));
                n = num div den;
                rem2 = 2 * (num mod den);
                n' = (if rem2 < den then n else if rem2 > den then n + 1
                      else if even n then n else n + 1)
            in sgn x * (of_int n' * pow2 (e - 52))))"

definition dadd :: "double \<Rightarrow> double \<Rightarrow> double" where
  "dadd x y = fl (x + y)"

definition dsub :: "double \<Rightarrow> double \<Rightarrow> double" where
  "dsub x y = fl (x - y)"

definition dmul :: "double \<Rightarrow> double \<Rightarrow> double" where
  "dmul x y = fl (x * y)"

definition ddiv :: "double \<Rightarrow> double \<Rightarrow> double" where
  "ddiv x y = fl (x / y)"

text \<open>\<open>Math.round\<close>: the nearest integer, a tie going up.\<close>

definition Math_round :: "double \<Rightarrow> int" where
  "Math_round x = \<lfloor>x + 1 / 2\<rfloor>"

section \<open>Data model\<close>

text \<open>
  A RawResponse as \<open>aggregateResponses\<close> pushes it.  \<open>leader\<close> is the result of
  \<open>extractLeaderName\<close> (\<open>None\<close> for \<open>null\<close>); \<open>department\<close> is the value of
  \<open>response._department || 'Unknown'\<close>.
\<close>

record RawResponse =
  text_r :: string
  normalizedText :: string
  leader :: "string option"
  department :: jsprim
  fullOriginal :: string
  semanticTokens :: "string list"

text \<open>
  A cluster object has the fields of \<open>ClusterCore\<close> throughout.  While the clustering
  pass fills it, it carries the Sets \<open>leaders\<close> and \<open>departments\<close>; at the end of the pass
  they are replaced by their sizes (\<open>leaderCount\<close>, \<open>departmentCount\<close>) and deleted.
\<close>

record ClusterCore =
  theme :: string
  count :: nat
  examples :: "string list"
  semanticSignature :: "string list"
  avgLength :: double

record ClusterAcc = ClusterCore +
  leaders :: "string option list"
  departments :: "jsprim list"

record Cluster = ClusterCore +
  leaderCount :: nat
  departmentCount :: nat

section \<open>Similarity measures\<close>

definition calculateJaccardSimilarity :: "string \<Rightarrow> string \<Rightarrow> double" where
  "calculateJaccardSimilarity text1 text2 =
     (let tokens1 = new_Set (split_ws text1);
          tokens2 = new_Set (split_ws text2)
      in if length tokens1 = 0 \<or> length tokens2 = 0 then 0
         else (let intersection = new_Set (filter (\<lambda>x. x \<in> set tokens2) tokens1);
                   union = new_Set (tokens1 @ tokens2)
               in ddiv (of_nat (length intersection)) (of_nat (length union))))"

definition calculateSemanticSimilarity :: "string list \<Rightarrow> string list \<Rightarrow> double" where
  "calculateSemanticSimilarity tokens1 tokens2 =
     (if length tokens1 = 0 \<or> length tokens2 = 0 then 0
      else (let set1 = new_Set tokens1;
                set2 = new_Set tokens2;
                intersection = length (filter (\<lambda>x. x \<in> set set2) set1);
                union = length (new_Set (set1 @ set2))
            in ddiv (of_nat intersection) (of_nat union)))"

definition calculateThemeSimilarity :: "string \<Rightarrow> string \<Rightarrow> double" where
  "calculateThemeSimilarity text1 text2 =
     (let theme1 = enhancedExtractTheme text1;
          theme2 = enhancedExtractTheme text2
      in if theme1 = theme2 then 1
         else (let words1 = split_char CHR ''_'' theme1;
                   words2 = split_char CHR ''_'' theme2;
                   overlap = length (filter (\<lambda>w. w \<in> set words2) words1);
                   maxLength = max (length words1) (length words2)
               in if maxLength > 0 then ddiv (of_nat overlap) (of_nat maxLength) else 0))"

text \<open>\<open>(jaccard * 0.3) + (semantic * 0.4) + (theme * 0.3)\<close>, evaluated left to right.\<close>

definition combinedSimilarity :: "RawResponse \<Rightarrow> RawResponse \<Rightarrow> double" where
  "combinedSimilarity response otherResponse =
     (let jaccard = calculateJaccardSimilarity (normalizedText response) (normalizedText otherResponse);
          semantic = calculateSemanticSimilarity (semanticTokens response) (semanticTokens otherResponse);
          themeSim = calculateThemeSimilarity (text_r response) (text_r otherResponse)
      in dadd (dadd (dmul jaccard (fl (3 / 10))) (dmul semantic (fl (4 / 10))))
              (dmul themeSim (fl (3 / 10))))"

section \<open>Clustering pass\<close>

text \<open>The cluster a seed starts.\<close>

definition seedCluster :: "RawResponse \<Rightarrow> ClusterAcc" where
  "seedCluster response =
     \<lparr> theme = enhancedExtractTheme (text_r response),
       count = 1,
       examples = [fullOriginal response],
       semanticSignature = semanticTokens response,
       avgLength = of_nat (length (text_r response)),
       leaders = [leader response],
       departments = [department response] \<rparr>"

text \<open>The updates made when \<open>otherResponse\<close> joins the cluster.\<close>

definition absorb :: "ClusterAcc \<Rightarrow> RawResponse \<Rightarrow> ClusterAcc" where
  "absorb cluster otherResponse =
     cluster
       \<lparr> count := count cluster + 1,
         examples := (if length (examples cluster) < 8
                      then examples cluster @ [fullOriginal otherResponse]
                      else examples cluster),
         leaders := (case leader otherResponse of
                       None \<Rightarrow> leaders cluster
                     | Some l \<Rightarrow> if l \<noteq> [] then set_add (Some l) (leaders cluster)
                                else leaders cluster),
         departments := (if truthy (department otherResponse)
                         then set_add (department otherResponse) (departments cluster)
                         else departments cluster),
         avgLength := ddiv (dadd (avgLength cluster) (of_nat (length (text_r otherResponse)))) 2,
         semanticSignature := new_Set (semanticSignature cluster @ semanticTokens otherResponse) \<rparr>"

text \<open>
  The body of the inner \<open>forEach\<close>, on the state \<open>(cluster, processed)\<close>, for the seed at
  \<open>idx\<close> and the candidate at \<open>otherIdx\<close>.
\<close>

definition clusterInner ::
  "RawResponse list \<Rightarrow> nat \<Rightarrow> ClusterAcc \<times> nat set \<Rightarrow> nat \<Rightarrow> ClusterAcc \<times> nat set" where
  "clusterInner sortedResponses idx st otherIdx =
     (if otherIdx \<le> idx \<or> otherIdx \<in> snd st then st
      else if combinedSimilarity (sortedResponses ! idx) (sortedResponses ! otherIdx) > fl (45 / 100)
           then (absorb (fst st) (sortedResponses ! otherIdx), insert otherIdx (snd st))
           else st)"

text \<open>The Sets become counts.\<close>

definition finalizeCluster :: "ClusterAcc \<Rightarrow> Cluster" where
  "finalizeCluster cluster =
     \<lparr> theme = theme cluster,
       count = count cluster,
       examples = examples cluster,
       semanticSignature = semanticSignature cluster,
       avgLength = avgLength cluster,
       leaderCount = length (leaders cluster),
       departmentCount = length (departments cluster) \<rparr>"

text \<open>The body of the outer \<open>forEach\<close>, on the state \<open>(clusters, processed)\<close>.\<close>

definition clusterOuter ::
  "RawResponse list \<Rightarrow> Cluster list \<times> nat set \<Rightarrow> nat \<Rightarrow> Cluster list \<times> nat set" where
  "clusterOuter sortedResponses st idx =
     (if idx \<in> snd st then st
      else (let inner = foldl (clusterInner sortedResponses idx)
                          (seedCluster (sortedResponses ! idx), insert idx (snd st))
                          [0..<length sortedResponses]
            in (fst st @ [finalizeCluster (fst inner)], snd inner)))"

definition clusteringPass :: "RawResponse list \<Rightarrow> Cluster list" where
  "clusteringPass sortedResponses =
     fst (foldl (clusterOuter sortedResponses) ([], {}) [0..<length sortedResponses])"

section \<open>Post-merge pass\<close>

definition themeJaccard :: "string \<Rightarrow> string \<Rightarrow> double" where
  "themeJaccard theme1 theme2 =
     (let themeWords1 = new_Set (split_char CHR ''_'' theme1);
          themeWords2 = new_Set (split_char CHR ''_'' theme2);
          themeOverlap = length (filter (\<lambda>x. x \<in> set themeWords2) themeWords1);
          themeUnion = length (new_Set (themeWords1 @ themeWords2))
      in ddiv (of_nat themeOverlap) (of_nat themeUnion))"

text \<open>
  The updates of one merge: \<open>cluster\<close> is the cluster at \<open>idx\<close> as the clustering pass
  left it, \<open>currentCluster\<close> its copy that accumulates the merges.
\<close>

definition mergeInto :: "Cluster \<Rightarrow> Cluster \<Rightarrow> Cluster \<Rightarrow> Cluster" where
  "mergeInto cluster currentCluster otherCluster =
     currentCluster
       \<lparr> count := count currentCluster + count otherCluster,
         examples := take 8 (new_Set (examples currentCluster @ examples otherCluster)),
         leaderCount := leaderCount currentCluster + leaderCount otherCluster,
         departmentCount := departmentCount currentCluster + departmentCount otherCluster,
         theme := (if count otherCluster > count cluster then theme otherCluster
                   else theme currentCluster) \<rparr>"

definition mergeInner ::
  "Cluster list \<Rightarrow> nat \<Rightarrow> Cluster \<times> nat set \<Rightarrow> nat \<Rightarrow> Cluster \<times> nat set" where
  "mergeInner clusters idx st otherIdx =
     (if otherIdx \<le> idx \<or> otherIdx \<in> snd st then st
      else if themeJaccard (theme (clusters ! idx)) (theme (clusters ! otherIdx)) > fl (6 / 10)
           then (mergeInto (clusters ! idx) (fst st) (clusters ! otherIdx), insert otherIdx (snd st))
           else st)"

definition mergeOuter ::
  "Cluster list \<Rightarrow> Cluster list \<times> nat set \<Rightarrow> nat \<Rightarrow> Cluster list \<times> nat set" where
  "mergeOuter clusters st idx =
     (if idx \<in> snd st then st
      else (let inner = foldl (mergeInner clusters idx) (clusters ! idx, insert idx (snd st))
                          [0..<length clusters]
            in (fst st @ [fst inner], snd inner)))"

definition postProcessClustersWithExamples :: "Cluster list \<Rightarrow> Cluster list" where
  "postProcessClustersWithExamples clusters =
     (if length clusters < 2 then clusters
      else fst (foldl (mergeOuter clusters) ([], {}) [0..<length clusters]))"

section \<open>Clustering of one category\<close>

text \<open>
  \<open>Array.prototype.sort\<close> is stable; with the comparator \<open>b.k - a.k\<close> it sorts by
  descending \<open>k\<close>, which is \<open>sort_key\<close> on the negated key.
\<close>

definition sortByLength :: "RawResponse list \<Rightarrow> RawResponse list" where
  "sortByLength responses = sort_key (\<lambda>r. - int (length (text_r r))) responses"

definition sortByCount :: "Cluster list \<Rightarrow> Cluster list" where
  "sortByCount cs = sort_key (\<lambda>c. - int (count c)) cs"

text \<open>The cluster list before the final \<open>slice(0, 40)\<close>.\<close>

definition mergedClusters :: "RawResponse list \<Rightarrow> Cluster list" where
  "mergedClusters responses =
     sortByCount (postProcessClustersWithExamples (clusteringPass (sortByLength responses)))"

definition enhancedClusterResponsesWithFullExamples :: "RawResponse list \<Rightarrow> Cluster list" where
  "enhancedClusterResponsesWithFullExamples responses =
     (if length responses = 0 then [] else take 40 (mergedClusters responses))"

section \<open>Aggregation over the survey records\<close>

record QuestionMapping =
  category :: string
  patterns :: "regex list"
  columnIndex :: nat
  columnRef :: string

text \<open>An unanchored pattern with the \<open>i\<close> flag, such as \<open>/bold.*ideas/i\<close>.\<close>

definition rxi :: "atom list \<Rightarrow> regex" where
  "rxi as = Regex False as False True"

definition questionMappings :: "QuestionMapping list" where
  "questionMappings =
     [\<lparr> category = ''fulfilling_work'',
        patterns =
          [rxi (lits ''make'' @ DotStar # lits ''work'' @ DotStar # lits ''fulfilling''),
           rxi (lits ''work'' @ DotStar # lits ''experience'' @ DotStar # lits ''fulfilling''),
           rxi (lits ''fulfilling'' @ DotStar # lits ''work''),
           rxi (lits ''enjoy'' @ DotStar # lits ''work''),
           rxi (lits ''satisfying'' @ DotStar # lits ''work'')],
        columnIndex = 7, columnRef = ''H'' \<rparr>,
      \<lparr> category = ''role_clarity'',
        patterns =
          [rxi (lits ''clarify'' @ DotStar # lits ''role'' @ DotStar # lits ''goals''),
           rxi (lits ''information'' @ DotStar # lits ''support'' @ DotStar # lits ''clarify''),
           rxi (lits ''understand'' @ DotStar # lits ''role''),
           rxi (lits ''goals'' @ DotStar # lits ''clear''),
           rxi (lits ''expectations'')],
        columnIndex = 9, columnRef = ''J'' \<rparr>,
      \<lparr> category = ''obstacles'',
        patterns =
          [rxi (lits ''obstacles'' @ DotStar # lits ''preventing''),
           rxi (lits ''preventing'' @ DotStar # lits ''highest''),
           rxi (lits ''barriers''),
           rxi (lits ''challenges''),
           rxi (lits ''problems'')],
        columnIndex = 12, columnRef = ''M'' \<rparr>,
      \<lparr> category = ''empowerment_changes'',
        patterns =
          [rxi (lits ''empowered'' @ DotStar # lits ''role''),
           rxi (lits ''changes'' @ DotStar # lits ''empowered''),
           rxi (lits ''feel'' @ DotStar # lits ''empowered''),
           rxi (lits ''autonomy''),
           rxi (lits ''decision'' @ DotStar # lits ''making'')],
        columnIndex = 14, columnRef = ''O'' \<rparr>,
      \<lparr> category = ''bold_ideas'',
        patterns =
          [rxi (lits ''bold'' @ DotStar # lits ''ideas''),
           rxi (lits ''ideas'' @ DotStar # lits ''propel''),
           rxi (lits ''propel'' @ DotStar # lits ''forward''),
           rxi (lits ''innovation''),
           rxi (lits ''suggestions'')],
        columnIndex = 16, columnRef = ''Q'' \<rparr>,
      \<lparr> category = ''leadership_support'',
        patterns =
          [rxi (lits ''support'' @ DotStar # lits ''leadership''),
           rxi (lits ''leadership'' @ DotStar # lits ''provide''),
           rxi (lits ''leadership'' @ DotStar # lits ''support''),
           rxi (lits ''management'' @ DotStar # lits ''support''),
           rxi (lits ''help'' @ DotStar # lits ''succeed'')],
        columnIndex = 19, columnRef = ''T'' \<rparr>]"

record ProcessingStats =
  originalCount :: nat
  validCount :: nat
  clusteredCount :: nat

text \<open>
  The per-category object.  \<open>rawResponses\<close> is \<open>None\<close> once \<open>delete\<close> has removed the
  property.
\<close>

record CategoryData =
  clusters :: "Cluster list"
  totalResponses :: nat
  rawResponses :: "RawResponse list option"
  columnRef_c :: string
  processingStats :: ProcessingStats

text \<open>
  A per-leader tally \<open>themes[theme]\<close> is a number for an ordinary label.  For a label
  that names a property inherited from \<open>Object.prototype\<close>, \<open>(themes[theme] || 0) + 1\<close>
  is a string: the text of the inherited value followed by a \<open>1\<close> for each update.
\<close>

datatype tally = Count nat | InheritedText nat

record LeaderData =
  responseCount :: nat
  themes :: "string \<Rightarrow> tally option"
  department_l :: jsprim

record ClusteringStats =
  avgClusterSize :: double
  largeClusterCount :: nat
  compressionRatio :: int

text \<open>\<open>metadata\<close> without \<open>processingTime\<close>, which is the wall clock.\<close>

record Metadata =
  uniqueLeaderCount :: nat
  uniqueDepartmentCount :: nat
  clusteringStats :: "(string \<times> ClusteringStats) list"

record Aggregated =
  byCategory :: "(string \<times> CategoryData) list"
  byLeader :: "string \<Rightarrow> LeaderData option"
  totalResponses_a :: nat
  metadata :: Metadata

text \<open>
  The state of the loop over the records: \<open>byCategory\<close>, \<open>byLeader\<close>, and the Sets
  \<open>uniqueLeaders\<close> and \<open>uniqueDepartments\<close>.
\<close>

record AggState =
  s_byCategory :: "(string \<times> CategoryData) list"
  s_byLeader :: "string \<Rightarrow> LeaderData option"
  uniqueLeaders :: "string list"
  uniqueDepartments :: "jsprim list"

text \<open>
  The names that every object inherits from \<open>Object.prototype\<close>: for them
  \<open>aggregated.byLeader[name]\<close> is truthy although \<open>byLeader\<close> has no such entry.
\<close>

definition objectPrototypeKeys :: "string list" where
  "objectPrototypeKeys =
     [''constructor'', ''__defineGetter__'', ''__defineSetter__'', ''hasOwnProperty'',
      ''__lookupGetter__'', ''__lookupSetter__'', ''isPrototypeOf'', ''propertyIsEnumerable'',
      ''toString'', ''valueOf'', ''__proto__'', ''toLocaleString'']"

text \<open>\<open>response.key\<close>: reading a property of \<open>null\<close> or \<open>undefined\<close> throws.\<close>

fun getProp :: "jsrecord \<Rightarrow> string \<Rightarrow> error + jsprim" where
  "getProp RNull key = Inl TypeError"
| "getProp RUndefined key = Inl TypeError"
| "getProp (RObj kvs) key = Inr (case map_of kvs key of None \<Rightarrow> JUndefined | Some v \<Rightarrow> v)"

text \<open>\<open>Object.keys(response)\<close>, which also throws on \<open>null\<close> and \<open>undefined\<close>.\<close>

fun objectKeys :: "jsrecord \<Rightarrow> error + string list" where
  "objectKeys RNull = Inl TypeError"
| "objectKeys RUndefined = Inl TypeError"
| "objectKeys (RObj kvs) = Inr (map fst kvs)"

text \<open>
  \<open>extractLeaderName\<close>.  A truthy value that is not a string has no \<open>split\<close> method:
  calling it throws.
\<close>

fun extractLeaderName :: "jsprim \<Rightarrow> error + string option" where
  "extractLeaderName (JStr rawLeaderName) =
     (if rawLeaderName = [] \<or> rawLeaderName = ''null'' \<or> rawLeaderName = ''undefined''
      then Inr None
      else (let name = trim (hd (split_char CHR ''('' rawLeaderName));
                parts = filter (\<lambda>p. length p > 0) (split_char CHR '' '' name)
            in if length parts \<ge> 2 then Inr (Some (parts ! 0 @ '' '' @ parts ! 1))
               else if length parts = 1 then Inr (Some (parts ! 0))
               else Inr None))"
| "extractLeaderName v = (if truthy v then Inl TypeError else Inr None)"

text \<open>\<open>extractTextFromResponse\<close> on the properties of an object.\<close>

definition extractTextFromResponse :: "(string \<times> jsprim) list \<Rightarrow> QuestionMapping \<Rightarrow> string list" where
  "extractTextFromResponse kvs mapping =
     concat (map (\<lambda>key.
                    if list_ex (\<lambda>pattern. rx_test pattern key) (patterns mapping)
                    then (case map_of kvs key of
                            Some (JStr v) \<Rightarrow> if v \<noteq> [] then [v] else []
                          | _ \<Rightarrow> [])
                    else [])
                 (map fst kvs))"

definition makeRawResponse :: "string option \<Rightarrow> jsprim \<Rightarrow> string \<Rightarrow> RawResponse" where
  "makeRawResponse leaderName dept textResponse =
     (let cleanText = enhancedCleanTextResponse textResponse;
          normalized = normalizeForClustering cleanText
      in \<lparr> text_r = cleanText,
           normalizedText = normalized,
           leader = leaderName,
           department = dept,
           fullOriginal = textResponse,
           semanticTokens = extractSemanticTokens cleanText \<rparr>)"

text \<open>\<open>themes[theme] = (themes[theme] || 0) + 1\<close>.\<close>

definition tallyTheme :: "(string \<Rightarrow> tally option) \<Rightarrow> string \<Rightarrow> (string \<Rightarrow> tally option)" where
  "tallyTheme ths t =
     (if t = ''__proto__'' then ths
      else case ths t of
             Some (Count n) \<Rightarrow> ths(t \<mapsto> Count (n + 1))
           | Some (InheritedText n) \<Rightarrow> ths(t \<mapsto> InheritedText (n + 1))
           | None \<Rightarrow> if t \<in> set objectPrototypeKeys then ths(t \<mapsto> InheritedText 1)
                     else ths(t \<mapsto> Count 1))"

text \<open>
  The update of the leader's entry for one valid text, under \<open>if (leaderName)\<close>.  When
  \<open>byLeader\<close> has no entry of its own for the name, \<open>aggregated.byLeader[leaderName]\<close>
  is \<open>undefined\<close> or an inherited value without \<open>themes\<close>, and reading
  \<open>themes[theme]\<close> throws.
\<close>

definition updateLeader ::
  "(string \<Rightarrow> LeaderData option) \<Rightarrow> string option \<Rightarrow> string \<Rightarrow> error + (string \<Rightarrow> LeaderData option)" where
  "updateLeader bl leaderName cleanText =
     (case leaderName of
        None \<Rightarrow> Inr bl
      | Some n \<Rightarrow>
          if n = [] then Inr bl
          else (case bl n of
                  None \<Rightarrow> Inl TypeError
                | Some d \<Rightarrow>
                    Inr (bl(n \<mapsto> d\<lparr> responseCount := responseCount d + 1,
                                    themes := tallyTheme (themes d) (enhancedExtractTheme cleanText) \<rparr>))))"

text \<open>The body of \<open>textResponses.forEach\<close> for one category, on its data and \<open>byLeader\<close>.\<close>

definition processText ::
  "string option \<Rightarrow> jsprim \<Rightarrow> CategoryData \<times> (string \<Rightarrow> LeaderData option) \<Rightarrow> string \<Rightarrow>
     error + CategoryData \<times> (string \<Rightarrow> LeaderData option)" where
  "processText leaderName dept st textResponse =
     (let categoryData = fst st;
          stats = processingStats categoryData;
          counted = categoryData\<lparr> processingStats := stats\<lparr> originalCount := originalCount stats + 1 \<rparr> \<rparr>
      in if isValidTextResponse (JStr textResponse)
         then (case rawResponses counted of
                 None \<Rightarrow> Inl TypeError
               | Some rs \<Rightarrow>
                   (let stats' = processingStats counted;
                        pushed = counted
                          \<lparr> processingStats := stats'\<lparr> validCount := validCount stats' + 1 \<rparr>,
                            rawResponses := Some (rs @ [makeRawResponse leaderName dept textResponse]),
                            totalResponses := totalResponses counted + 1 \<rparr>
                    in case updateLeader (snd st) leaderName (enhancedCleanTextResponse textResponse) of
                         Inl e \<Rightarrow> Inl e
                       | Inr bl \<Rightarrow> Inr (pushed, bl)))
         else Inr (counted, snd st))"

text \<open>A \<open>forEach\<close> whose body may throw: the first exception ends the loop.\<close>

fun forEachM :: "('s \<Rightarrow> 'a \<Rightarrow> error + 's) \<Rightarrow> 's \<Rightarrow> 'a list \<Rightarrow> error + 's" where
  "forEachM f st [] = Inr st"
| "forEachM f st (x # xs) = (case f st x of Inl e \<Rightarrow> Inl e | Inr st' \<Rightarrow> forEachM f st' xs)"

text \<open>
  The body of \<open>questionMappings.forEach\<close> for one record, on \<open>byCategory\<close> and
  \<open>byLeader\<close>.  The category object is looked up by name and updated in place.
\<close>

definition processMapping ::
  "(string \<times> jsprim) list \<Rightarrow> string option \<Rightarrow> jsprim \<Rightarrow>
     (string \<times> CategoryData) list \<times> (string \<Rightarrow> LeaderData option) \<Rightarrow> QuestionMapping \<Rightarrow>
     error + (string \<times> CategoryData) list \<times> (string \<Rightarrow> LeaderData option)" where
  "processMapping kvs leaderName dept st mapping =
     (let textResponses = extractTextFromResponse kvs mapping
      in case map_of (fst st) (category mapping) of
           None \<Rightarrow> if textResponses = [] then Inr st else Inl TypeError
         | Some categoryData \<Rightarrow>
             (case forEachM (processText leaderName dept) (categoryData, snd st) textResponses of
                Inl e \<Rightarrow> Inl e
              | Inr res \<Rightarrow> Inr (AList.update (category mapping) (fst res) (fst st), snd res)))"

text \<open>\<open>aggregated.byLeader[leaderName]\<close> is truthy: an own entry or an inherited value.\<close>

definition hasLeader :: "(string \<Rightarrow> LeaderData option) \<Rightarrow> string \<Rightarrow> bool" where
  "hasLeader bl n = (case bl n of Some d \<Rightarrow> True | None \<Rightarrow> n \<in> set objectPrototypeKeys)"

text \<open>The body of \<open>cleanedData.forEach\<close>.\<close>

fun processResponse :: "AggState \<Rightarrow> jsrecord \<Rightarrow> error + AggState" where
  "processResponse st RNull = Inl TypeError"
| "processResponse st RUndefined = Inl TypeError"
| "processResponse st (RObj kvs) =
     (case getProp (RObj kvs) ''_steamLeader'' of
        Inl e \<Rightarrow> Inl e
      | Inr steamLeader \<Rightarrow>
     (case extractLeaderName steamLeader of
        Inl e \<Rightarrow> Inl e
      | Inr leaderName \<Rightarrow>
     (case getProp (RObj kvs) ''_department'' of
        Inl e \<Rightarrow> Inl e
      | Inr dept0 \<Rightarrow>
          (let dept = (if truthy dept0 then dept0 else JStr ''Unknown'');
               named = (case leaderName of None \<Rightarrow> False | Some n \<Rightarrow> n \<noteq> []);
               uls = (if named then set_add (the leaderName) (uniqueLeaders st) else uniqueLeaders st);
               uds = (if truthy dept then set_add dept (uniqueDepartments st) else uniqueDepartments st);
               bl = (if named \<and> \<not> hasLeader (s_byLeader st) (the leaderName)
                     then (s_byLeader st)(the leaderName \<mapsto>
                            \<lparr> responseCount = 0, themes = Map.empty, department_l = dept \<rparr>)
                     else s_byLeader st)
           in case forEachM (processMapping kvs leaderName dept) (s_byCategory st, bl) questionMappings of
                Inl e \<Rightarrow> Inl e
              | Inr res \<Rightarrow>
                  Inr \<lparr> s_byCategory = fst res, s_byLeader = snd res,
                        uniqueLeaders = uls, uniqueDepartments = uds \<rparr>))))"

definition initCategory :: "QuestionMapping \<Rightarrow> string \<times> CategoryData" where
  "initCategory mapping =
     (category mapping,
      \<lparr> clusters = [], totalResponses = 0, rawResponses = Some [],
        columnRef_c = columnRef mapping,
        processingStats = \<lparr> originalCount = 0, validCount = 0, clusteredCount = 0 \<rparr> \<rparr>)"

definition initState :: AggState where
  "initState =
     \<lparr> s_byCategory = map initCategory questionMappings, s_byLeader = Map.empty,
       uniqueLeaders = [], uniqueDepartments = [] \<rparr>"

text \<open>
  The body of the final \<open>Object.keys(aggregated.byCategory).forEach\<close> for one category:
  the new category object and, when it was clustered, its \<open>clusteringStats\<close> entry.
\<close>

definition clusterCategory :: "CategoryData \<Rightarrow> error + CategoryData \<times> ClusteringStats option" where
  "clusterCategory categoryData =
     (case rawResponses categoryData of
        None \<Rightarrow> Inl TypeError
      | Some rs \<Rightarrow>
          if length rs > 0
          then (let cs = enhancedClusterResponsesWithFullExamples rs;
                    stats = processingStats categoryData;
                    avg = ddiv (of_nat (totalResponses categoryData)) (of_nat (length cs));
                    large = length (filter (\<lambda>c. count c \<ge> 20) cs)
                in Inr (categoryData
                          \<lparr> clusters := cs,
                            processingStats := stats\<lparr> clusteredCount := length cs \<rparr>,
                            rawResponses := None \<rparr>,
                        Some \<lparr> avgClusterSize = ddiv (of_int (Math_round (dmul avg 10))) 10,
                               largeClusterCount = large,
                               compressionRatio =
                                 Math_round (dmul (dsub 1 (ddiv (of_nat (length cs))
                                                       (of_nat (totalResponses categoryData)))) 100) \<rparr>))
          else Inr (categoryData, None))"

definition clusterStep ::
  "(string \<times> CategoryData) list \<times> (string \<times> ClusteringStats) list \<Rightarrow> string \<times> CategoryData \<Rightarrow>
     error + (string \<times> CategoryData) list \<times> (string \<times> ClusteringStats) list" where
  "clusterStep acc entry =
     (case clusterCategory (snd entry) of
        Inl e \<Rightarrow> Inl e
      | Inr res \<Rightarrow>
          Inr (fst acc @ [(fst entry, fst res)],
               (case snd res of None \<Rightarrow> snd acc | Some cst \<Rightarrow> snd acc @ [(fst entry, cst)])))"

definition aggregateResponses :: "jsrecord list \<Rightarrow> error + Aggregated" where
  "aggregateResponses cleanedData =
     (case forEachM processResponse initState cleanedData of
        Inl e \<Rightarrow> Inl e
      | Inr st \<Rightarrow>
          (case forEachM clusterStep ([], []) (s_byCategory st) of
             Inl e \<Rightarrow> Inl e
           | Inr res \<Rightarrow>
               Inr \<lparr> byCategory = fst res,
                     byLeader = s_byLeader st,
                     totalResponses_a = length cleanedData,
                     metadata = \<lparr> uniqueLeaderCount = length (uniqueLeaders st),
                                  uniqueDepartmentCount = length (uniqueDepartments st),
                                  clusteringStats = snd res \<rparr> \<rparr>))"

section \<open>The specification's vocabulary\<close>

text \<open>
  The denylist of the validity filter as the specification words it: ten literal
  entries, and the strings made only of dashes or only of dots.
\<close>

definition denylist :: "string list" where
  "denylist =
     [''n/a'', ''none'', ''no'', ''nothing'', ''nil'', ''na'', ''not applicable'',
      ''no comment'', ''nope'', ''nada'']"

definition allOf :: "char \<Rightarrow> string \<Rightarrow> bool" where
  "allOf c s = (s \<noteq> [] \<and> list_all (\<lambda>x. x = c) s)"

definition denylisted :: "string \<Rightarrow> bool" where
  "denylisted s = (s \<in> set denylist \<or> allOf CHR ''-'' s \<or> allOf CHR ''.'' s)"

text \<open>
  The theme label as the specification words it.  A dictionary scores the number of
  its keywords that are among the words, plus one if there is any; the label is the
  first dictionary that reaches the highest score, or the fallback when that is zero.
\<close>

definition specScore :: "string list \<Rightarrow> string list \<Rightarrow> nat" where
  "specScore words keywords =
     (let present = filter (\<lambda>k. k \<in> set words) keywords
      in if present = [] then 0 else length present + 1)"

primrec maxList :: "nat list \<Rightarrow> nat" where
  "maxList [] = 0"
| "maxList (x # xs) = max x (maxList xs)"

definition highestScore :: "string list \<Rightarrow> nat" where
  "highestScore words = maxList (map (\<lambda>entry. specScore words (snd entry)) themeKeywords)"

definition fallbackLabel :: "string list \<Rightarrow> string" where
  "fallbackLabel words =
     (case filter (\<lambda>w. 4 < length w \<and> w \<notin> set themeStoplist) words of
        [] \<Rightarrow> ''other''
      | [a] \<Rightarrow> a
      | a # b # rest \<Rightarrow> a @ ''_'' @ b)"

definition specTheme :: "string list \<Rightarrow> string" where
  "specTheme words =
     (if highestScore words = 0 then fallbackLabel words
      else (case find (\<lambda>entry. specScore words (snd entry) = highestScore words) themeKeywords of
              Some entry \<Rightarrow> fst entry
            | None \<Rightarrow> ''other''))"

text \<open>
  What holds of a category object while the records are read: it has no clusters yet,
  and \<open>totalResponses\<close> and \<open>validCount\<close> both count the collected \<open>rawResponses\<close>.
\<close>

definition collecting :: "CategoryData \<Rightarrow> bool" where
  "collecting categoryData =
     (clusters categoryData = [] \<and>
      (case rawResponses categoryData of
         None \<Rightarrow> False
       | Some rs \<Rightarrow> totalResponses categoryData = length rs \<and>
                   validCount (processingStats categoryData) = length rs))"

text \<open>
  What holds of a category object in the result, \<open>rs\<close> being the valid responses
  collected for it: both counters give their number, the clusters are those of \<open>rs\<close>,
  and \<open>rawResponses\<close> has been deleted unless \<open>rs\<close> is empty.
\<close>

definition clusteredFrom :: "RawResponse list \<Rightarrow> CategoryData \<Rightarrow> bool" where
  "clusteredFrom rs categoryData =
     (totalResponses categoryData = length rs \<and>
      validCount (processingStats categoryData) = length rs \<and>
      clusters categoryData = enhancedClusterResponsesWithFullExamples rs \<and>
      rawResponses categoryData = (if rs = [] then Some [] else None))"

text \<open>
  A small survey, used to instantiate the theorems below: one record whose column
  \<open>challenges\<close> belongs to the category \<open>obstacles\<close> and holds a valid answer.
\<close>

definition sampleData :: "jsrecord list" where
  "sampleData = [RObj [(''challenges'', JStr ''more tools'')]]"

text \<open>
  Two states of the loop over the records that agree on everything but the Set of
  departments, which only the count \<open>uniqueDepartmentCount\<close> reads.
\<close>

definition sameCore :: "AggState \<Rightarrow> AggState \<Rightarrow> bool" where
  "sameCore s1 s2 =
     (s_byCategory s1 = s_byCategory s2 \<and> s_byLeader s1 = s_byLeader s2 \<and>
      uniqueLeaders s1 = uniqueLeaders s2)"

text \<open>Intersection over union of two sets, \<open>0\<close> when both are empty.\<close>

definition iou :: "'a set \<Rightarrow> 'a set \<Rightarrow> rat" where
  "iou A B = (if A \<union> B = {} then 0 else of_nat (card (A \<inter> B)) / of_nat (card (A \<union> B)))"

text \<open>
  The combined score as the specification words it, in exact arithmetic.  The theme
  similarity of two different labels is the number of words that the two labels share,
  over the word count of the longer label.
\<close>

definition sharedWordsSimilarity :: "string \<Rightarrow> string \<Rightarrow> rat" where
  "sharedWordsSimilarity label1 label2 =
     (if label1 = label2 then 1
      else of_nat (card (set (split_char CHR ''_'' label1) \<inter> set (split_char CHR ''_'' label2))) /
           of_nat (max (length (split_char CHR ''_'' label1))
                       (length (split_char CHR ''_'' label2))))"

definition claimedScore :: "RawResponse \<Rightarrow> RawResponse \<Rightarrow> rat" where
  "claimedScore a b =
     3 / 10 * iou (set (split_ws (normalizedText a))) (set (split_ws (normalizedText b))) +
     4 / 10 * iou (set (semanticTokens a)) (set (semanticTokens b)) +
     3 / 10 * sharedWordsSimilarity (enhancedExtractTheme (text_r a))
                (enhancedExtractTheme (text_r b))"

text \<open>
  The combined score in the arithmetic of the source, binary64, and with the overlap
  of labels that the source counts.  The theme similarity of two different labels is
  the number of words of the seed's label, each occurrence counted, that occur in the
  candidate's label, over the word count of the longer label, rounded to a double.  The
  two intersections over union are rounded to doubles, and so are the three products
  with the doubles nearest to 0.3, 0.4 and 0.3 and the two sums, from left to right.
\<close>

definition labelOverlapSimilarity :: "string \<Rightarrow> string \<Rightarrow> double" where
  "labelOverlapSimilarity label1 label2 =
     (if label1 = label2 then 1
      else fl (of_nat (length (filter (\<lambda>w. w \<in> set (split_char CHR ''_'' label2))
                                 (split_char CHR ''_'' label1))) /
               of_nat (max (length (split_char CHR ''_'' label1))
                           (length (split_char CHR ''_'' label2)))))"

definition roundedScore :: "RawResponse \<Rightarrow> RawResponse \<Rightarrow> double" where
  "roundedScore a b =
     (let jaccard = fl (iou (set (split_ws (normalizedText a))) (set (split_ws (normalizedText b))));
          semantic = fl (iou (set (semanticTokens a)) (set (semanticTokens b)));
          themeSim = labelOverlapSimilarity (enhancedExtractTheme (text_r a))
                       (enhancedExtractTheme (text_r b))
      in dadd (dadd (dmul jaccard (fl (3 / 10))) (dmul semantic (fl (4 / 10))))
              (dmul themeSim (fl (3 / 10))))"

text \<open>A seed and a candidate with the same short answer, as \<open>makeRawResponse\<close> builds them.\<close>

definition sampleResponse :: RawResponse where
  "sampleResponse =
     \<lparr> text_r = ''more tools'', normalizedText = ''more tools'', leader = None,
       department = JStr ''Unknown'', fullOriginal = ''more tools'',
       semanticTokens = [''tools''] \<rparr>"

text \<open>
  Six answers of one category: one \<open>A\<close>, three \<open>B\<close>, two \<open>C\<close>.  Their labels are made of
  the same two words, \<open>apple_grape\<close> for \<open>A\<close> and \<open>C\<close> and \<open>grape_apple\<close> for \<open>B\<close>, and answers
  with different texts score at most 0.42 against each other.
\<close>

definition labelledResponse :: "string \<Rightarrow> RawResponse" where
  "labelledResponse t =
     \<lparr> text_r = t, normalizedText = t, leader = None, department = JStr ''Unknown'',
       fullOriginal = t, semanticTokens = [] \<rparr>"

definition answerA :: string where
  "answerA = ''apple grape aa ab''"

definition answerB :: string where
  "answerB = ''grape apple ba bb''"

definition answerC :: string where
  "answerC = ''apple grape ca''"

definition sixResponses :: "RawResponse list" where
  "sixResponses = map labelledResponse [answerA, answerB, answerB, answerB, answerC, answerC]"

text \<open>The clusters that the clustering pass makes of the six answers.\<close>

definition threeClusters :: "Cluster list" where
  "threeClusters =
     [\<lparr> theme = ''apple_grape'', count = 1, examples = [answerA], semanticSignature = [],
        avgLength = 17, leaderCount = 1, departmentCount = 1 \<rparr>,
      \<lparr> theme = ''grape_apple'', count = 3, examples = [answerB, answerB, answerB],
        semanticSignature = [], avgLength = 17, leaderCount = 1, departmentCount = 1 \<rparr>,
      \<lparr> theme = ''apple_grape'', count = 2, examples = [answerC, answerC],
        semanticSignature = [], avgLength = 14, leaderCount = 1, departmentCount = 1 \<rparr>]"

text \<open>
  Two pairs of a seed and a candidate, as \<open>makeRawResponse\<close> builds them.  The first
  pair shares half of its words and three of four tokens, with unrelated labels; the
  second shares three of four words, with the labels \<open>apple_apple\<close> and \<open>apple_grape\<close>.
\<close>

definition boundarySeed :: RawResponse where
  "boundarySeed =
     \<lparr> text_r = ''talk tools goals system aa bb'',
       normalizedText = ''talk tools goals system aa bb'', leader = None,
       department = JStr ''Unknown'', fullOriginal = ''talk tools goals system aa bb'',
       semanticTokens = [''communication'', ''tools'', ''clarity'', ''system''] \<rparr>"

definition boundaryCandidate :: RawResponse where
  "boundaryCandidate =
     \<lparr> text_r = ''talk tools goals'', normalizedText = ''talk tools goals'', leader = None,
       department = JStr ''Unknown'', fullOriginal = ''talk tools goals'',
       semanticTokens = [''communication'', ''tools'', ''clarity''] \<rparr>"

definition repeatedSeed :: RawResponse where
  "repeatedSeed = labelledResponse ''apple apple aa ab''"

text \<open>
  The contribution of a record to a category as the specification words it.  A string
  is valid when, trimmed and lower-cased, it is not on the denylist and its trimmed
  length exceeds 8.  The candidates of a record for a category are the string values
  of the columns whose header matches one of the category's patterns.  Each valid
  candidate contributes one response, which carries the leader and the department of
  the record.
\<close>

definition validString :: "string \<Rightarrow> bool" where
  "validString s = (\<not> denylisted (toLowerCase (trim s)) \<and> 8 < length (trim s))"

definition candidateStrings :: "(string \<times> jsprim) list \<Rightarrow> QuestionMapping \<Rightarrow> string list" where
  "candidateStrings kvs mapping =
     concat (map (\<lambda>key.
                    if list_ex (\<lambda>pattern. rx_test pattern key) (patterns mapping)
                    then (case map_of kvs key of Some (JStr v) \<Rightarrow> [v] | _ \<Rightarrow> [])
                    else [])
                 (map fst kvs))"

definition recordLeader :: "(string \<times> jsprim) list \<Rightarrow> string option" where
  "recordLeader kvs =
     (case extractLeaderName (case map_of kvs ''_steamLeader'' of None \<Rightarrow> JUndefined | Some v \<Rightarrow> v) of
        Inl e \<Rightarrow> None
      | Inr leaderName \<Rightarrow> leaderName)"

definition recordDepartment :: "(string \<times> jsprim) list \<Rightarrow> jsprim" where
  "recordDepartment kvs =
     (let dept0 = (case map_of kvs ''_department'' of None \<Rightarrow> JUndefined | Some v \<Rightarrow> v)
      in if truthy dept0 then dept0 else JStr ''Unknown'')"

definition contributions :: "QuestionMapping \<Rightarrow> jsrecord \<Rightarrow> RawResponse list" where
  "contributions mapping r =
     (case r of
        RObj kvs \<Rightarrow>
          map (makeRawResponse (recordLeader kvs) (recordDepartment kvs))
            (filter validString (candidateStrings kvs mapping))
      | _ \<Rightarrow> [])"

definition collected :: "QuestionMapping \<Rightarrow> jsrecord list \<Rightarrow> RawResponse list" where
  "collected mapping data = concat (map (contributions mapping) data)"

text \<open>
  The state of a category object while the records are read, \<open>rs\<close> being the responses
  pushed so far; and the state of \<open>byCategory\<close>, \<open>f\<close> giving these responses for every
  category name.
\<close>

definition collectingOf :: "RawResponse list \<Rightarrow> CategoryData \<Rightarrow> bool" where
  "collectingOf rs categoryData =
     (clusters categoryData = [] \<and> rawResponses categoryData = Some rs \<and>
      totalResponses categoryData = length rs \<and>
      validCount (processingStats categoryData) = length rs)"

definition tracked :: "(string \<Rightarrow> RawResponse list) \<Rightarrow> (string \<times> CategoryData) list \<Rightarrow> bool" where
  "tracked f cats = (\<forall>k cd. map_of cats k = Some cd \<longrightarrow> collectingOf (f k) cd)"

text \<open>What \<open>textResponses.forEach\<close> pushes for one record and one category.\<close>

definition pushedBy ::
  "(string \<times> jsprim) list \<Rightarrow> string option \<Rightarrow> jsprim \<Rightarrow> QuestionMapping \<Rightarrow> RawResponse list" where
  "pushedBy kvs leaderName dept mapping =
     map (makeRawResponse leaderName dept)
       (filter (\<lambda>t. isValidTextResponse (JStr t)) (extractTextFromResponse kvs mapping))"

definition pushedFor ::
  "(string \<times> jsprim) list \<Rightarrow> string option \<Rightarrow> jsprim \<Rightarrow> QuestionMapping list \<Rightarrow> string \<Rightarrow>
     RawResponse list" where
  "pushedFor kvs leaderName dept ms k =
     concat (map (\<lambda>m. if category m = k then pushedBy kvs leaderName dept m else []) ms)"

definition recordPushes :: "jsrecord \<Rightarrow> string \<Rightarrow> RawResponse list" where
  "recordPushes r k =
     (case r of
        RObj kvs \<Rightarrow> pushedFor kvs (recordLeader kvs) (recordDepartment kvs) questionMappings k
      | _ \<Rightarrow> [])"

text \<open>
  A survey of four records whose only column belongs to the category \<open>obstacles\<close>: a
  valid answer of nine characters, two denylisted answers, and a number.
\<close>

definition filterSample :: "jsrecord list" where
  "filterSample =
     [RObj [(''barriers'', JStr ''It's okay'')],
      RObj [(''barriers'', JStr ''N/A'')],
      RObj [(''barriers'', JStr ''  none  '')],
      RObj [(''barriers'', JNum 123456789)]]"

section \<open>Characters and trimming\<close>

lemma isSpace_code: "isSpace c = ((of_char c :: nat) \<in> {9, 10, 11, 12, 13, 32, 160})"
proof -
  have eq [simp]: "\<And>d. (c = d) = ((of_char c :: nat) = of_char d)" by simp
  show ?thesis unfolding isSpace_def by (simp del: of_char_eq_iff)
qed

lemma of_char_toLowerChar:
  "(of_char (toLowerChar c) :: nat) =
     (let n = of_char c in
      if (65 \<le> n \<and> n \<le> 90) \<or> (192 \<le> n \<and> n \<le> 222 \<and> n \<noteq> 215) then n + 32 else n)"
  by (auto simp: toLowerChar_def Let_def)

lemma isSpace_lower: "isSpace (toLowerChar c) = isSpace c"
  by (auto simp: isSpace_code of_char_toLowerChar Let_def)

text \<open>Lower-casing and trimming commute, so the order the source applies them in is immaterial.\<close>

lemma trim_lower: "trim (toLowerCase s) = toLowerCase (trim s)"
proof -
  have comp: "isSpace \<circ> toLowerChar = isSpace"
    by (rule ext) (simp add: isSpace_lower)
  show ?thesis
    by (simp add: trim_def toLowerCase_def dropWhile_map rev_map comp)
qed

lemma trim_Nil [simp]: "trim [] = []"
  by (simp add: trim_def)

section \<open>The validity filter\<close>

lemma rx_at_lits: "rx_at False True (lits w) s = (s = w)"
proof (induction w arbitrary: s)
  case Nil
  then show ?case by (simp add: lits_def)
next
  case (Cons a w)
  then show ?case by (cases s) (auto simp: lits_def chr_eq_def)
qed

lemma rx_at_plus: "rx_at False True [PlusLit c] s = allOf c s"
proof (induction s)
  case Nil
  then show ?case by (simp add: allOf_def)
next
  case (Cons a s)
  then show ?case by (cases s) (auto simp: allOf_def chr_eq_def)
qed

lemma rx_at_n_a:
  "rx_at False True [Lit CHR ''n'', OptLit CHR ''/'', Lit CHR ''a''] s = (s = ''n/a'' \<or> s = ''na'')"
proof (cases s)
  case Nil
  then show ?thesis by simp
next
  case (Cons c cs)
  note outer = Cons
  show ?thesis
  proof (cases cs)
    case Nil
    with outer show ?thesis by (simp add: chr_eq_def)
  next
    case (Cons d ds)
    with outer show ?thesis
      by (cases ds) (auto simp: chr_eq_def)
  qed
qed

text \<open>The twelve patterns of the source accept exactly the denylist.\<close>

lemma invalid_iff: "list_ex (\<lambda>pattern. rx_test pattern s) invalidPatterns = denylisted s"
  by (auto simp: invalidPatterns_def anchored_def rx_test_def rx_at_lits rx_at_plus rx_at_n_a
      denylisted_def denylist_def)

lemma isValid_iff:
  "isValidTextResponse (JStr s) = (\<not> denylisted (toLowerCase (trim s)) \<and> 8 < length (trim s))"
  by (simp add: invalid_iff trim_lower Let_def)

lemma extract_single:
  "list_ex (\<lambda>p. rx_test p key) (patterns mapping) \<Longrightarrow>
   extractTextFromResponse [(key, v)] mapping =
     (case v of JStr s \<Rightarrow> if s \<noteq> [] then [s] else [] | _ \<Rightarrow> [])"
  by (simp add: extractTextFromResponse_def)

text \<open>
  The texts that pass the validity filter, for a record with a single column whose
  header matches one of the category's patterns.
\<close>

lemma validity_filter:
  "list_ex (\<lambda>p. rx_test p key) (patterns mapping) \<Longrightarrow>
   filter (\<lambda>t. isValidTextResponse (JStr t)) (extractTextFromResponse [(key, v)] mapping) =
     (case v of
        JStr s \<Rightarrow> if denylisted (toLowerCase (trim s)) \<or> length (trim s) \<le> 8 then [] else [s]
      | _ \<Rightarrow> [])"
  by (cases v) (auto simp: extract_single isValid_iff simp del: isValidTextResponse.simps)

section \<open>The theme label\<close>

lemma themeScore_spec: "themeScore words keywords = specScore words keywords"
  by (auto simp: themeScore_def specScore_def Let_def list_ex_iff filter_empty_conv)

lemma maxList_attained: "0 < maxList xs \<Longrightarrow> maxList xs \<in> set xs"
  by (induction xs) (auto simp: max_def)

text \<open>
  The loop over the dictionaries keeps the first entry that reaches the highest score,
  when that exceeds the score it started with.
\<close>

lemma find_max_Some:
  "0 < maxList (map f es) \<Longrightarrow> \<exists>e. find (\<lambda>e. f e = maxList (map f es)) es = Some e"
proof -
  assume "0 < maxList (map f es)"
  then have "maxList (map f es) \<in> set (map f es)"
    by (rule maxList_attained)
  then show ?thesis
    by (cases "find (\<lambda>e. f e = maxList (map f es)) es") (auto simp: find_None_iff)
qed

lemma foldl_themeStep:
  "foldl (themeStep words) (t0, s0) es =
     (if maxList (map (\<lambda>e. specScore words (snd e)) es) \<le> s0 then (t0, s0)
      else (case find (\<lambda>e. specScore words (snd e) = maxList (map (\<lambda>e. specScore words (snd e)) es)) es of
              Some e \<Rightarrow> (fst e, specScore words (snd e))
            | None \<Rightarrow> (t0, s0)))"
proof (induction es arbitrary: t0 s0)
  case Nil
  then show ?case by simp
next
  case (Cons e es)
  let ?sc = "\<lambda>e. specScore words (snd e)"
  let ?M = "maxList (map ?sc es)"
  show ?case
  proof (cases "?sc e > s0")
    case True
    then have step: "themeStep words (t0, s0) e = (fst e, ?sc e)"
      by (simp add: themeStep_def themeScore_spec)
    show ?thesis
    proof (cases "?M \<le> ?sc e")
      case le: True
      with True show ?thesis by (simp add: step Cons.IH max_def)
    next
      case gt: False
      then have "0 < ?M" by simp
      then obtain e' where "find (\<lambda>e. ?sc e = ?M) es = Some e'"
        using find_max_Some [of ?sc es] by blast
      with True gt show ?thesis by (simp add: step Cons.IH max_def)
    qed
  next
    case False
    then have step: "themeStep words (t0, s0) e = (t0, s0)"
      by (simp add: themeStep_def themeScore_spec)
    show ?thesis
      using False by (auto simp add: step Cons.IH max_def)
  qed
qed

lemma join_fallback:
  "(if filter (\<lambda>w. 4 < length w \<and> w \<notin> set themeStoplist) words \<noteq> []
    then join ''_'' (take 2 (filter (\<lambda>w. 4 < length w \<and> w \<notin> set themeStoplist) words))
    else ''other'') =
   fallbackLabel words"
proof -
  obtain mw where mw: "filter (\<lambda>w. 4 < length w \<and> w \<notin> set themeStoplist) words = mw"
    by simp
  show ?thesis
  proof (cases mw)
    case Nil
    with mw show ?thesis by (simp add: fallbackLabel_def)
  next
    case (Cons a as)
    with mw show ?thesis by (cases as) (simp_all add: fallbackLabel_def)
  qed
qed

lemma extractTheme_spec: "enhancedExtractTheme txt = specTheme (split_ws (toLowerCase txt))"
proof -
  let ?ws = "split_ws (toLowerCase txt)"
  let ?sc = "\<lambda>e. specScore ?ws (snd e)"
  let ?m = "maxList (map ?sc themeKeywords)"
  show ?thesis
  proof (cases "?m = 0")
    case True
    then have "foldl (themeStep ?ws) (''other'', 0) themeKeywords = (''other'', 0)"
      by (simp add: foldl_themeStep)
    then have "enhancedExtractTheme txt =
        (if filter (\<lambda>w. 4 < length w \<and> w \<notin> set themeStoplist) ?ws \<noteq> []
         then join ''_'' (take 2 (filter (\<lambda>w. 4 < length w \<and> w \<notin> set themeStoplist) ?ws))
         else ''other'')"
      by (simp add: enhancedExtractTheme_def Let_def)
    also have "\<dots> = fallbackLabel ?ws"
      by (rule join_fallback)
    also have "\<dots> = specTheme ?ws"
      using True by (simp add: specTheme_def highestScore_def)
    finally show ?thesis .
  next
    case False
    then have "0 < ?m" by simp
    then obtain e where e: "find (\<lambda>e. ?sc e = ?m) themeKeywords = Some e"
      using find_max_Some [of ?sc themeKeywords] by blast
    then have sc: "?sc e = ?m"
      by (auto simp: find_Some_iff)
    have "foldl (themeStep ?ws) (''other'', 0) themeKeywords = (fst e, ?sc e)"
      using False e by (simp add: foldl_themeStep)
    then show ?thesis
      using False e sc
      by (simp add: enhancedExtractTheme_def specTheme_def highestScore_def Let_def)
  qed
qed

lemma empowered_only:
  assumes present: "''empowered'' \<in> set words"
    and only: "\<forall>entry\<in>set themeKeywords. \<forall>k\<in>set (snd entry). k \<in> set words \<longrightarrow> k = ''empowered''"
  shows "specTheme words = ''autonomy_empowerment''"
proof -
  have sc: "specScore words (snd e) = specScore [''empowered''] (snd e)" if "e \<in> set themeKeywords" for e
  proof -
    have "filter (\<lambda>k. k \<in> set words) (snd e) = filter (\<lambda>k. k \<in> set [''empowered'']) (snd e)"
      using that present only by (intro filter_cong) auto
    then show ?thesis by (simp add: specScore_def)
  qed
  have scores: "map (\<lambda>e. specScore words (snd e)) themeKeywords =
                map (\<lambda>e. specScore [''empowered''] (snd e)) themeKeywords"
    using sc by simp
  have hs: "highestScore words = highestScore [''empowered'']"
    by (simp add: highestScore_def scores)
  have fnd: "find (\<lambda>e. specScore words (snd e) = highestScore [''empowered'']) themeKeywords =
             find (\<lambda>e. specScore [''empowered''] (snd e) = highestScore [''empowered'']) themeKeywords"
    using sc by (intro find_cong) auto
  have "specTheme words = (if highestScore [''empowered''] = 0 then fallbackLabel words
      else (case find (\<lambda>e. specScore [''empowered''] (snd e) = highestScore [''empowered'']) themeKeywords of
              Some entry \<Rightarrow> fst entry | None \<Rightarrow> ''other''))"
    by (simp add: specTheme_def hs fnd)
  moreover have "highestScore [''empowered''] = 2"
    by code_simp
  moreover have "find (\<lambda>e. specScore [''empowered''] (snd e) = 2) themeKeywords = Some (themeKeywords ! 4)"
    by code_simp
  moreover have "fst (themeKeywords ! 4) = ''autonomy_empowerment''"
    by code_simp
  ultimately show ?thesis by simp
qed

text \<open>
  On the text it is given, \<open>enhancedExtractTheme\<close> computes the label from the
  lower-cased, white-space-split words: the first dictionary with the highest score
  (keywords present, plus one when any is present), or, when no dictionary scores, the
  first two words longer than four characters and off the stoplist joined by an
  underscore (one such word alone; \<open>other\<close> when there is none).  When \<open>empowered\<close> is
  among the words and is the only dictionary keyword among them, the label is
  \<open>autonomy_empowerment\<close>.
\<close>

lemma theme_label_of_text:
  "enhancedExtractTheme txt = specTheme (split_ws (toLowerCase txt)) \<and>
   (''empowered'' \<in> set (split_ws (toLowerCase txt)) \<and>
    (\<forall>entry\<in>set themeKeywords. \<forall>k\<in>set (snd entry).
        k \<in> set (split_ws (toLowerCase txt)) \<longrightarrow> k = ''empowered'')
    \<longrightarrow> enhancedExtractTheme txt = ''autonomy_empowerment'')"
  using extractTheme_spec [of "txt"] empowered_only [of "split_ws (toLowerCase txt)"]
  by (simp del: split_paired_All)

text \<open>
  Claim C4 fails on a response with two spaces in a row.  The answer
  \<open>I feel  empowered\<close> is valid, and among its lower-cased words \<open>empowered\<close> is the only
  theme keyword, so the claim labels it \<open>autonomy_empowerment\<close>.  The label is computed
  on the cleaned text, and the cleaning deletes every run of two or more white-space
  characters: the words \<open>feel\<close> and \<open>empowered\<close> are glued, no keyword is left, and the
  response and the cluster it starts are labelled \<open>feelempowered\<close>.
\<close>

theorem glued_words_label:
  "isValidTextResponse (JStr ''I feel  empowered'') \<and>
   specTheme (split_ws (toLowerCase ''I feel  empowered'')) = ''autonomy_empowerment'' \<and>
   enhancedCleanTextResponse ''I feel  empowered'' = ''I feelempowered'' \<and>
   theme (seedCluster (makeRawResponse None (JStr ''Unknown'') ''I feel  empowered'')) =
     ''feelempowered''"
  by code_simp

section \<open>Loop invariants\<close>

lemma foldl_inv:
  assumes "I s" and "\<And>s x. I s \<Longrightarrow> x \<in> set xs \<Longrightarrow> I (f s x)"
  shows "I (foldl f s xs)"
  using assms by (induction xs arbitrary: s) auto

lemma count_absorb: "count (absorb cluster other) = count cluster + 1"
  by (simp add: absorb_def)

lemma count_finalize: "count (finalizeCluster cluster) = count cluster"
  by (simp add: finalizeCluster_def)

lemma count_mergeInto: "count (mergeInto cluster current other) = count current + count other"
  by (simp add: mergeInto_def)

text \<open>
  One seed: the inner loop only adds indices to \<open>processed\<close>, and the cluster's count
  grows by one for each index it adds.
\<close>

lemma clusterInner_inv:
  assumes "P0 \<subseteq> {0..<n}" and "set xs \<subseteq> {0..<n}"
  shows "P0 \<subseteq> snd (foldl (clusterInner rs idx) (c0, P0) xs) \<and>
         snd (foldl (clusterInner rs idx) (c0, P0) xs) \<subseteq> {0..<n} \<and>
         count (fst (foldl (clusterInner rs idx) (c0, P0) xs)) + card P0 =
           count c0 + card (snd (foldl (clusterInner rs idx) (c0, P0) xs))"
proof (rule foldl_inv [where I = "\<lambda>s :: ClusterAcc \<times> nat set. P0 \<subseteq> snd s \<and> snd s \<subseteq> {0..<n} \<and>
                                    count (fst s) + card P0 = count c0 + card (snd s)"])
  show "P0 \<subseteq> snd (c0, P0) \<and> snd (c0, P0) \<subseteq> {0..<n} \<and>
        count (fst (c0, P0)) + card P0 = count c0 + card (snd (c0, P0))"
    using assms by simp
next
  fix s :: "ClusterAcc \<times> nat set" and x
  assume I: "P0 \<subseteq> snd s \<and> snd s \<subseteq> {0..<n} \<and> count (fst s) + card P0 = count c0 + card (snd s)"
    and x: "x \<in> set xs"
  then have fin: "finite (snd s)"
    using finite_subset by blast
  from x assms have xn: "x < n" by auto
  show "P0 \<subseteq> snd (clusterInner rs idx s x) \<and> snd (clusterInner rs idx s x) \<subseteq> {0..<n} \<and>
        count (fst (clusterInner rs idx s x)) + card P0 =
          count c0 + card (snd (clusterInner rs idx s x))"
    using I fin xn by (auto simp: clusterInner_def count_absorb)
qed

lemma clusterOuter_inv:
  "k \<le> length rs \<Longrightarrow>
   {0..<k} \<subseteq> snd (foldl (clusterOuter rs) ([], {}) [0..<k]) \<and>
   snd (foldl (clusterOuter rs) ([], {}) [0..<k]) \<subseteq> {0..<length rs} \<and>
   sum_list (map count (fst (foldl (clusterOuter rs) ([], {}) [0..<k]))) =
     card (snd (foldl (clusterOuter rs) ([], {}) [0..<k]))"
proof (induction k)
  case 0
  then show ?case by simp
next
  case (Suc k)
  let ?r = "foldl (clusterOuter rs) ([], {}) [0..<k]"
  from Suc have IH: "{0..<k} \<subseteq> snd ?r" "snd ?r \<subseteq> {0..<length rs}"
    "sum_list (map count (fst ?r)) = card (snd ?r)"
    by simp_all
  have fin: "finite (snd ?r)"
    using IH(2) finite_subset by blast
  have step: "foldl (clusterOuter rs) ([], {}) [0..<Suc k] = clusterOuter rs ?r k"
    by simp
  show ?case
  proof (cases "k \<in> snd ?r")
    case True
    then have "clusterOuter rs ?r k = ?r"
      by (simp add: clusterOuter_def)
    with True IH show ?thesis
      unfolding step by (auto simp: less_Suc_eq)
  next
    case False
    let ?P0 = "insert k (snd ?r)"
    let ?in = "foldl (clusterInner rs k) (seedCluster (rs ! k), ?P0) [0..<length rs]"
    have P0: "?P0 \<subseteq> {0..<length rs}"
      using IH(2) Suc.prems by auto
    have inner: "?P0 \<subseteq> snd ?in" "snd ?in \<subseteq> {0..<length rs}"
      "count (fst ?in) + card ?P0 = count (seedCluster (rs ! k)) + card (snd ?in)"
      using clusterInner_inv [OF P0, of "[0..<length rs]" rs k "seedCluster (rs ! k)"]
      by simp_all
    have res: "clusterOuter rs ?r k = (fst ?r @ [finalizeCluster (fst ?in)], snd ?in)"
      using False by (simp add: clusterOuter_def Let_def)
    have cardP0: "card ?P0 = Suc (card (snd ?r))"
      using False fin by simp
    have "count (seedCluster (rs ! k)) = 1"
      by (simp add: seedCluster_def)
    with inner(3) cardP0 have cnt: "count (fst ?in) + card (snd ?r) = card (snd ?in)"
      by simp
    show ?thesis
      unfolding step res
      using IH inner(1,2) cnt by (auto simp: less_Suc_eq count_finalize)
  qed
qed

lemma clusteringPass_count: "sum_list (map count (clusteringPass rs)) = length rs"
proof -
  let ?r = "foldl (clusterOuter rs) ([], {}) [0..<length rs]"
  have "{0..<length rs} \<subseteq> snd ?r" "snd ?r \<subseteq> {0..<length rs}"
    "sum_list (map count (fst ?r)) = card (snd ?r)"
    using clusterOuter_inv [of "length rs" rs] by simp_all
  then have "snd ?r = {0..<length rs}" by blast
  then show ?thesis
    using \<open>sum_list (map count (fst ?r)) = card (snd ?r)\<close> by (simp add: clusteringPass_def)
qed

text \<open>The same for the post-merge pass, each index weighing the count of its cluster.\<close>

lemma mergeInner_inv:
  assumes "P0 \<subseteq> {0..<n}" and "set xs \<subseteq> {0..<n}"
  shows "P0 \<subseteq> snd (foldl (mergeInner cs idx) (c0, P0) xs) \<and>
         snd (foldl (mergeInner cs idx) (c0, P0) xs) \<subseteq> {0..<n} \<and>
         count (fst (foldl (mergeInner cs idx) (c0, P0) xs)) + (\<Sum>i\<in>P0. count (cs ! i)) =
           count c0 + (\<Sum>i\<in>snd (foldl (mergeInner cs idx) (c0, P0) xs). count (cs ! i))"
proof (rule foldl_inv [where I = "\<lambda>s :: Cluster \<times> nat set. P0 \<subseteq> snd s \<and> snd s \<subseteq> {0..<n} \<and>
              count (fst s) + (\<Sum>i\<in>P0. count (cs ! i)) = count c0 + (\<Sum>i\<in>snd s. count (cs ! i))"])
  show "P0 \<subseteq> snd (c0, P0) \<and> snd (c0, P0) \<subseteq> {0..<n} \<and>
        count (fst (c0, P0)) + (\<Sum>i\<in>P0. count (cs ! i)) =
          count c0 + (\<Sum>i\<in>snd (c0, P0). count (cs ! i))"
    using assms by simp
next
  fix s :: "Cluster \<times> nat set" and x
  assume I: "P0 \<subseteq> snd s \<and> snd s \<subseteq> {0..<n} \<and>
             count (fst s) + (\<Sum>i\<in>P0. count (cs ! i)) = count c0 + (\<Sum>i\<in>snd s. count (cs ! i))"
    and x: "x \<in> set xs"
  then have fin: "finite (snd s)"
    using finite_subset by blast
  from x assms have xn: "x < n" by auto
  show "P0 \<subseteq> snd (mergeInner cs idx s x) \<and> snd (mergeInner cs idx s x) \<subseteq> {0..<n} \<and>
        count (fst (mergeInner cs idx s x)) + (\<Sum>i\<in>P0. count (cs ! i)) =
          count c0 + (\<Sum>i\<in>snd (mergeInner cs idx s x). count (cs ! i))"
    using I fin xn by (auto simp: mergeInner_def count_mergeInto)
qed

lemma mergeOuter_inv:
  "k \<le> length cs \<Longrightarrow>
   {0..<k} \<subseteq> snd (foldl (mergeOuter cs) ([], {}) [0..<k]) \<and>
   snd (foldl (mergeOuter cs) ([], {}) [0..<k]) \<subseteq> {0..<length cs} \<and>
   sum_list (map count (fst (foldl (mergeOuter cs) ([], {}) [0..<k]))) =
     (\<Sum>i\<in>snd (foldl (mergeOuter cs) ([], {}) [0..<k]). count (cs ! i))"
proof (induction k)
  case 0
  then show ?case by simp
next
  case (Suc k)
  let ?r = "foldl (mergeOuter cs) ([], {}) [0..<k]"
  from Suc have IH: "{0..<k} \<subseteq> snd ?r" "snd ?r \<subseteq> {0..<length cs}"
    "sum_list (map count (fst ?r)) = (\<Sum>i\<in>snd ?r. count (cs ! i))"
    by simp_all
  have fin: "finite (snd ?r)"
    using IH(2) finite_subset by blast
  have step: "foldl (mergeOuter cs) ([], {}) [0..<Suc k] = mergeOuter cs ?r k"
    by simp
  show ?case
  proof (cases "k \<in> snd ?r")
    case True
    then have "mergeOuter cs ?r k = ?r"
      by (simp add: mergeOuter_def)
    with True IH show ?thesis
      unfolding step by (auto simp: less_Suc_eq)
  next
    case False
    let ?P0 = "insert k (snd ?r)"
    let ?in = "foldl (mergeInner cs k) (cs ! k, ?P0) [0..<length cs]"
    have P0: "?P0 \<subseteq> {0..<length cs}"
      using IH(2) Suc.prems by auto
    have inner: "?P0 \<subseteq> snd ?in" "snd ?in \<subseteq> {0..<length cs}"
      "count (fst ?in) + (\<Sum>i\<in>?P0. count (cs ! i)) = count (cs ! k) + (\<Sum>i\<in>snd ?in. count (cs ! i))"
      using mergeInner_inv [OF P0, of "[0..<length cs]" cs k "cs ! k"]
      by simp_all
    have res: "mergeOuter cs ?r k = (fst ?r @ [fst ?in], snd ?in)"
      using False by (simp add: mergeOuter_def Let_def)
    have "(\<Sum>i\<in>?P0. count (cs ! i)) = count (cs ! k) + (\<Sum>i\<in>snd ?r. count (cs ! i))"
      using False fin by simp
    with inner(3) have cnt: "count (fst ?in) + (\<Sum>i\<in>snd ?r. count (cs ! i)) = (\<Sum>i\<in>snd ?in. count (cs ! i))"
      by simp
    show ?thesis
      unfolding step res
      using IH inner(1,2) cnt by (auto simp: less_Suc_eq)
  qed
qed

lemma postProcess_count:
  "sum_list (map count (postProcessClustersWithExamples cs)) = sum_list (map count cs)"
proof (cases "length cs < 2")
  case True
  then show ?thesis by (simp add: postProcessClustersWithExamples_def)
next
  case False
  let ?r = "foldl (mergeOuter cs) ([], {}) [0..<length cs]"
  have "{0..<length cs} \<subseteq> snd ?r" "snd ?r \<subseteq> {0..<length cs}"
    and s: "sum_list (map count (fst ?r)) = (\<Sum>i\<in>snd ?r. count (cs ! i))"
    using mergeOuter_inv [of "length cs" cs] by simp_all
  then have "snd ?r = {0..<length cs}" by blast
  with s have "sum_list (map count (fst ?r)) = (\<Sum>i = 0..<length cs. count (cs ! i))"
    by simp
  also have "\<dots> = sum_list (map count cs)"
    by (simp add: sum_list_sum_nth)
  finally show ?thesis
    using False by (simp add: postProcessClustersWithExamples_def)
qed

lemma sum_list_insort_key:
  "sum_list (map g (insort_key f x xs)) = g x + sum_list (map g xs)"
  for g :: "'a \<Rightarrow> nat" and f :: "'a \<Rightarrow> int"
  by (induction xs) auto

lemma sum_list_sort_key:
  "sum_list (map g (sort_key f xs)) = sum_list (map g xs)"
  for g :: "'a \<Rightarrow> nat" and f :: "'a \<Rightarrow> int"
  by (induction xs) (auto simp: sum_list_insort_key)

lemma mergedClusters_count:
  "sum_list (map count (mergedClusters responses)) = length responses"
  by (simp add: mergedClusters_def sortByCount_def sum_list_sort_key postProcess_count
      clusteringPass_count sortByLength_def)

section \<open>The categories of the aggregate\<close>

lemma forEachM_inv:
  assumes "forEachM f s xs = Inr s'" and "I s"
    and "\<And>s x s'. I s \<Longrightarrow> f s x = Inr s' \<Longrightarrow> I s'"
  shows "I s'"
  using assms by (induction xs arbitrary: s) (auto split: sum.splits)

lemma processText_collecting:
  "processText l d st t = Inr st' \<Longrightarrow> collecting (fst st) \<Longrightarrow> collecting (fst st')"
  by (auto simp: processText_def collecting_def Let_def split: if_splits option.splits sum.splits)

lemma texts_collecting:
  assumes "forEachM (processText l d) st ts = Inr st'" and "collecting (fst st)"
  shows "collecting (fst st')"
  using assms(1,2)
  by (rule forEachM_inv [where I = "\<lambda>s. collecting (fst s)"]) (rule processText_collecting)

lemma update_all:
  "list_all (\<lambda>e. P (snd e)) al \<Longrightarrow> P v \<Longrightarrow> list_all (\<lambda>e. P (snd e)) (AList.update k v al)"
  by (induction al) auto

lemma update_present_keys:
  "map_of al k = Some v' \<Longrightarrow> map fst (AList.update k v al) = map fst al"
  by (induction al) (auto split: if_splits)

lemma processMapping_inv:
  assumes "processMapping kvs l d st m = Inr st'"
    and "list_all (\<lambda>e. collecting (snd e)) (fst st)"
  shows "list_all (\<lambda>e. collecting (snd e)) (fst st') \<and> map fst (fst st') = map fst (fst st)"
proof (cases "map_of (fst st) (category m)")
  case None
  with assms show ?thesis
    by (auto simp: processMapping_def Let_def split: if_splits)
next
  case (Some cd)
  then have "(category m, cd) \<in> set (fst st)"
    by (rule map_of_SomeD)
  with assms(2) have cd: "collecting cd"
    by (auto simp: list_all_iff)
  from assms(1) Some obtain res where
    res: "forEachM (processText l d) (cd, snd st) (extractTextFromResponse kvs m) = Inr res"
    and st': "st' = (AList.update (category m) (fst res) (fst st), snd res)"
    by (auto simp: processMapping_def Let_def split: sum.splits)
  from res cd have "collecting (fst res)"
    using texts_collecting by fastforce
  with assms(2) Some show ?thesis
    by (simp add: st' update_all update_present_keys)
qed

lemma mappings_inv:
  assumes "forEachM (processMapping kvs l d) st ms = Inr st'"
    and "list_all (\<lambda>e. collecting (snd e)) (fst st)"
  shows "list_all (\<lambda>e. collecting (snd e)) (fst st') \<and> map fst (fst st') = map fst (fst st)"
proof -
  have "list_all (\<lambda>e. collecting (snd e)) (fst st') \<and> map fst (fst st') = map fst (fst st)"
    using assms(1)
  proof (rule forEachM_inv [where I = "\<lambda>s. list_all (\<lambda>e. collecting (snd e)) (fst s) \<and>
                                           map fst (fst s) = map fst (fst st)"])
    show "list_all (\<lambda>e. collecting (snd e)) (fst st) \<and> map fst (fst st) = map fst (fst st)"
      using assms(2) by simp
  next
    fix s x s'
    assume "list_all (\<lambda>e. collecting (snd e)) (fst s) \<and> map fst (fst s) = map fst (fst st)"
      and "processMapping kvs l d s x = Inr s'"
    then show "list_all (\<lambda>e. collecting (snd e)) (fst s') \<and> map fst (fst s') = map fst (fst st)"
      using processMapping_inv [of kvs l d s x s'] by simp
  qed
  then show ?thesis .
qed

lemma processResponse_inv:
  assumes "processResponse st r = Inr st'"
    and "list_all (\<lambda>e. collecting (snd e)) (s_byCategory st)"
  shows "list_all (\<lambda>e. collecting (snd e)) (s_byCategory st') \<and>
         map fst (s_byCategory st') = map fst (s_byCategory st)"
proof (cases r)
  case RNull
  with assms show ?thesis by simp
next
  case RUndefined
  with assms show ?thesis by simp
next
  case (RObj kvs)
  with assms(1) obtain l d bl res where
    "forEachM (processMapping kvs l d) (s_byCategory st, bl) questionMappings = Inr res"
    and "s_byCategory st' = fst res"
    by (auto simp: Let_def split: sum.splits)
  with assms(2) show ?thesis
    using mappings_inv [of kvs l d "(s_byCategory st, bl)" questionMappings res] by simp
qed

lemma records_inv:
  assumes "forEachM processResponse initState data = Inr st"
  shows "list_all (\<lambda>e. collecting (snd e)) (s_byCategory st) \<and>
         map fst (s_byCategory st) = map category questionMappings"
  using assms
proof (rule forEachM_inv [where I = "\<lambda>s. list_all (\<lambda>e. collecting (snd e)) (s_byCategory s) \<and>
                                         map fst (s_byCategory s) = map category questionMappings"])
  show "list_all (\<lambda>e. collecting (snd e)) (s_byCategory initState) \<and>
        map fst (s_byCategory initState) = map category questionMappings"
    by (simp add: initState_def list_all_iff initCategory_def collecting_def comp_def)
next
  fix s x s'
  assume "list_all (\<lambda>e. collecting (snd e)) (s_byCategory s) \<and>
          map fst (s_byCategory s) = map category questionMappings"
    and "processResponse s x = Inr s'"
  then show "list_all (\<lambda>e. collecting (snd e)) (s_byCategory s') \<and>
             map fst (s_byCategory s') = map category questionMappings"
    using processResponse_inv [of s x s'] by simp
qed

lemma clusterCategory_collecting:
  assumes "collecting cd"
  shows "\<exists>res rs. clusterCategory cd = Inr res \<and> clusteredFrom rs (fst res)"
proof -
  from assms obtain rs where rs: "rawResponses cd = Some rs" "totalResponses cd = length rs"
    "validCount (processingStats cd) = length rs" "clusters cd = []"
    by (auto simp: collecting_def split: option.splits)
  show ?thesis
  proof (cases "rs = []")
    case True
    with rs have "clusterCategory cd = Inr (cd, None)" "clusteredFrom rs cd"
      by (simp_all add: clusterCategory_def clusteredFrom_def
          enhancedClusterResponsesWithFullExamples_def)
    then show ?thesis by fastforce
  next
    case False
    with rs obtain res where "clusterCategory cd = Inr res" "clusteredFrom rs (fst res)"
      by (simp add: clusterCategory_def clusteredFrom_def Let_def)
    then show ?thesis by blast
  qed
qed

lemma clusterSteps:
  assumes "list_all (\<lambda>e. collecting (snd e)) cats"
  shows "\<exists>res. forEachM clusterStep acc cats = Inr res \<and>
           map fst (fst res) = map fst (fst acc) @ map fst cats \<and>
           (list_all (\<lambda>e. \<exists>rs. clusteredFrom rs (snd e)) (fst acc) \<longrightarrow>
            list_all (\<lambda>e. \<exists>rs. clusteredFrom rs (snd e)) (fst res))"
  using assms
proof (induction cats arbitrary: acc)
  case Nil
  then show ?case by simp
next
  case (Cons e cats)
  then have "collecting (snd e)" by simp
  then obtain res rs where res: "clusterCategory (snd e) = Inr res" "clusteredFrom rs (fst res)"
    using clusterCategory_collecting by blast
  let ?acc = "(fst acc @ [(fst e, fst res)],
               (case snd res of None \<Rightarrow> snd acc | Some cst \<Rightarrow> snd acc @ [(fst e, cst)]))"
  have step: "clusterStep acc e = Inr ?acc"
    using res(1) by (simp add: clusterStep_def)
  from Cons have "list_all (\<lambda>e. collecting (snd e)) cats" by simp
  from Cons.IH [OF this, of ?acc] obtain r where
    r: "forEachM clusterStep ?acc cats = Inr r"
    "map fst (fst r) = map fst (fst ?acc) @ map fst cats"
    "list_all (\<lambda>e. \<exists>rs. clusteredFrom rs (snd e)) (fst ?acc) \<longrightarrow>
     list_all (\<lambda>e. \<exists>rs. clusteredFrom rs (snd e)) (fst r)"
    by blast
  show ?case
    using r res(2) by (auto simp: step)
qed

text \<open>
  Once every record has been read without an exception, the clustering of the
  categories ends without one, and every category of the result is as \<open>clusteredFrom\<close>
  says, for the list of responses collected for it.
\<close>

lemma aggregate_total:
  assumes "forEachM processResponse initState data = Inr st"
  shows "\<exists>agg. aggregateResponses data = Inr agg \<and>
           map fst (byCategory agg) = map category questionMappings \<and>
           list_all (\<lambda>e. \<exists>rs. clusteredFrom rs (snd e)) (byCategory agg)"
proof -
  from records_inv [OF assms] have inv: "list_all (\<lambda>e. collecting (snd e)) (s_byCategory st)"
    and keys: "map fst (s_byCategory st) = map category questionMappings"
    by simp_all
  from clusterSteps [OF inv, of "([], [])"] obtain res where
    "forEachM clusterStep ([], []) (s_byCategory st) = Inr res"
    "map fst (fst res) = map fst (s_byCategory st)"
    "list_all (\<lambda>e. \<exists>rs. clusteredFrom rs (snd e)) (fst res)"
    by auto
  with assms keys show ?thesis
    by (simp add: aggregateResponses_def)
qed

lemma aggregate_categories:
  assumes "aggregateResponses data = Inr agg"
  shows "map fst (byCategory agg) = map category questionMappings \<and>
         list_all (\<lambda>e. \<exists>rs. clusteredFrom rs (snd e)) (byCategory agg)"
proof -
  from assms obtain st where "forEachM processResponse initState data = Inr st"
    by (auto simp: aggregateResponses_def split: sum.splits)
  from aggregate_total [OF this] assms show ?thesis by auto
qed

section \<open>The responses collected for a category\<close>

lemma isValid_validString: "isValidTextResponse (JStr s) = validString s"
  unfolding validString_def by (rule isValid_iff)

lemma validString_Nil: "\<not> validString []"
  by (simp add: validString_def trim_Nil)

lemma candidate_step:
  "filter validString (case map_of kvs key of Some (JStr v) \<Rightarrow> if v \<noteq> [] then [v] else [] | _ \<Rightarrow> []) =
   filter validString (case map_of kvs key of Some (JStr v) \<Rightarrow> [v] | _ \<Rightarrow> [])"
proof (cases "map_of kvs key")
  case None
  then show ?thesis by simp
next
  case (Some a)
  then show ?thesis by (cases a) (simp_all add: validString_Nil)
qed

lemma valid_candidate_keys:
  "filter validString
          (concat (map (\<lambda>key. if list_ex (\<lambda>pattern. rx_test pattern key) (patterns m)
                              then (case map_of kvs key of
                                      Some (JStr v) \<Rightarrow> if v \<noteq> [] then [v] else []
                                    | _ \<Rightarrow> [])
                              else []) ks)) =
        filter validString
          (concat (map (\<lambda>key. if list_ex (\<lambda>pattern. rx_test pattern key) (patterns m)
                              then (case map_of kvs key of Some (JStr v) \<Rightarrow> [v] | _ \<Rightarrow> [])
                              else []) ks))"
proof (induction ks)
  case Nil
  show ?case by simp
next
  case (Cons k ks)
  have k: "filter validString
             (if list_ex (\<lambda>pattern. rx_test pattern k) (patterns m)
              then (case map_of kvs k of
                      Some (JStr v) \<Rightarrow> if v \<noteq> [] then [v] else []
                    | _ \<Rightarrow> [])
              else []) =
           filter validString
             (if list_ex (\<lambda>pattern. rx_test pattern k) (patterns m)
              then (case map_of kvs k of Some (JStr v) \<Rightarrow> [v] | _ \<Rightarrow> [])
              else [])"
    by (cases "list_ex (\<lambda>pattern. rx_test pattern k) (patterns m)") (simp_all only: if_True if_False candidate_step)
  show ?case
    unfolding list.map concat.simps filter_append
    by (rule arg_cong2 [where f = "(@)", OF k Cons.IH])
qed

lemma valid_candidates:
  "filter (\<lambda>t. isValidTextResponse (JStr t)) (extractTextFromResponse kvs m) =
   filter validString (candidateStrings kvs m)"
proof -
  have v: "(\<lambda>t. isValidTextResponse (JStr t)) = validString"
    by (rule ext) (rule isValid_validString)
  show ?thesis
    unfolding extractTextFromResponse_def candidateStrings_def v
    by (rule valid_candidate_keys)
qed

lemma pushedBy_spec:
  "pushedBy kvs l d m = map (makeRawResponse l d) (filter validString (candidateStrings kvs m))"
  by (simp only: pushedBy_def valid_candidates)

text \<open>
  One valid text is pushed, with both counters incremented; an invalid one changes
  neither \<open>rawResponses\<close> nor the two counters.
\<close>

lemma processText_collectingOf:
  assumes "processText l d st t = Inr st'" and "collectingOf rs (fst st)"
  shows "collectingOf (rs @ (if isValidTextResponse (JStr t) then [makeRawResponse l d t] else []))
           (fst st')"
  using assms
  by (auto simp: processText_def collectingOf_def Let_def
      simp del: isValidTextResponse.simps split: if_splits sum.splits)

lemma texts_collectingOf:
  "forEachM (processText l d) st ts = Inr st' \<Longrightarrow> collectingOf rs (fst st) \<Longrightarrow>
   collectingOf (rs @ map (makeRawResponse l d) (filter (\<lambda>t. isValidTextResponse (JStr t)) ts))
     (fst st')"
proof (induction ts arbitrary: st rs)
  case Nil
  then show ?case by simp
next
  case (Cons t ts)
  from Cons.prems(1) obtain st1 where st1: "processText l d st t = Inr st1"
    and rest: "forEachM (processText l d) st1 ts = Inr st'"
    by (auto split: sum.splits)
  from processText_collectingOf [OF st1 Cons.prems(2)]
  have "collectingOf (rs @ (if isValidTextResponse (JStr t) then [makeRawResponse l d t] else []))
          (fst st1)" .
  from Cons.IH [OF rest this] show ?case
    by (cases "isValidTextResponse (JStr t)") (simp_all del: isValidTextResponse.simps)
qed

lemma processMapping_tracked:
  assumes "processMapping kvs l d st m = Inr st'" and "tracked f (fst st)"
  shows "tracked (f(category m := f (category m) @ pushedBy kvs l d m)) (fst st') \<and>
         map fst (fst st') = map fst (fst st)"
proof (cases "map_of (fst st) (category m)")
  case None
  with assms(1) have "extractTextFromResponse kvs m = []" and "st' = st"
    by (auto simp: processMapping_def Let_def split: if_splits)
  then have "pushedBy kvs l d m = []" and "st' = st"
    by (simp_all add: pushedBy_def)
  with assms(2) show ?thesis
    by simp
next
  case (Some cd)
  with assms(2) have cd: "collectingOf (f (category m)) cd"
    by (simp add: tracked_def)
  from assms(1) Some obtain res where
    res: "forEachM (processText l d) (cd, snd st) (extractTextFromResponse kvs m) = Inr res"
    and st': "st' = (AList.update (category m) (fst res) (fst st), snd res)"
    by (auto simp: processMapping_def Let_def split: sum.splits)
  from texts_collectingOf [OF res] cd
  have "collectingOf (f (category m) @ pushedBy kvs l d m) (fst res)"
    by (simp add: pushedBy_def del: isValidTextResponse.simps)
  with assms(2) Some show ?thesis
    by (simp add: st' tracked_def update_conv' update_present_keys)
qed

lemma mappings_tracked:
  "forEachM (processMapping kvs l d) st ms = Inr st' \<Longrightarrow> tracked f (fst st) \<Longrightarrow>
   tracked (\<lambda>k. f k @ pushedFor kvs l d ms k) (fst st') \<and> map fst (fst st') = map fst (fst st)"
proof (induction ms arbitrary: st f)
  case Nil
  then show ?case by (simp add: pushedFor_def)
next
  case (Cons m ms)
  from Cons.prems(1) obtain st1 where st1: "processMapping kvs l d st m = Inr st1"
    and rest: "forEachM (processMapping kvs l d) st1 ms = Inr st'"
    by (auto split: sum.splits)
  let ?f1 = "f(category m := f (category m) @ pushedBy kvs l d m)"
  from processMapping_tracked [OF st1 Cons.prems(2)]
  have t1: "tracked ?f1 (fst st1)" and keys: "map fst (fst st1) = map fst (fst st)"
    by simp_all
  have "(\<lambda>k. ?f1 k @ pushedFor kvs l d ms k) = (\<lambda>k. f k @ pushedFor kvs l d (m # ms) k)"
    by (rule ext) (simp add: pushedFor_def)
  with Cons.IH [OF rest t1] keys show ?case
    by simp
qed

lemma processResponse_tracked:
  assumes "processResponse st r = Inr st'" and "tracked f (s_byCategory st)"
  shows "tracked (\<lambda>k. f k @ recordPushes r k) (s_byCategory st') \<and>
         map fst (s_byCategory st') = map fst (s_byCategory st)"
proof (cases r)
  case RNull
  with assms show ?thesis by simp
next
  case RUndefined
  with assms show ?thesis by simp
next
  case (RObj kvs)
  with assms(1) obtain bl res where
    "forEachM (processMapping kvs (recordLeader kvs) (recordDepartment kvs))
       (s_byCategory st, bl) questionMappings = Inr res"
    and "s_byCategory st' = fst res"
    by (auto simp: Let_def recordLeader_def recordDepartment_def split: sum.splits)
  with assms(2) RObj show ?thesis
    using mappings_tracked [of kvs "recordLeader kvs" "recordDepartment kvs"
        "(s_byCategory st, bl)" questionMappings res f]
    by (simp add: recordPushes_def)
qed

lemma records_tracked:
  "forEachM processResponse st data = Inr st' \<Longrightarrow> tracked f (s_byCategory st) \<Longrightarrow>
   tracked (\<lambda>k. f k @ concat (map (\<lambda>r. recordPushes r k) data)) (s_byCategory st') \<and>
   map fst (s_byCategory st') = map fst (s_byCategory st)"
proof (induction data arbitrary: st f)
  case Nil
  then show ?case by simp
next
  case (Cons r data)
  from Cons.prems(1) obtain st1 where st1: "processResponse st r = Inr st1"
    and rest: "forEachM processResponse st1 data = Inr st'"
    by (auto split: sum.splits)
  from processResponse_tracked [OF st1 Cons.prems(2)]
  have t1: "tracked (\<lambda>k. f k @ recordPushes r k) (s_byCategory st1)"
    and keys: "map fst (s_byCategory st1) = map fst (s_byCategory st)"
    by simp_all
  from Cons.IH [OF rest t1] keys show ?case
    by simp
qed

lemma categories_distinct: "distinct (map category questionMappings)"
  by (simp add: questionMappings_def)

lemma concat_select:
  "distinct (map c ms) \<Longrightarrow> m \<in> set ms \<Longrightarrow>
   concat (map (\<lambda>m'. if c m' = c m then F m' else []) ms) = F m"
proof (induction ms)
  case Nil
  then show ?case by simp
next
  case (Cons a ms)
  show ?case
  proof (cases "a = m")
    case True
    with Cons.prems have "c m \<notin> c ` set ms"
      by simp
    then have "\<forall>m'\<in>set ms. c m' \<noteq> c m"
      by (metis image_eqI)
    then have "concat (map (\<lambda>m'. if c m' = c m then F m' else []) ms) = []"
      by (induction ms) auto
    with True show ?thesis by simp
  next
    case False
    with Cons.prems have "m \<in> set ms" and "c a \<noteq> c m" and "distinct (map c ms)"
      by auto
    with Cons.IH show ?thesis by simp
  qed
qed

lemma recordPushes_spec:
  "m \<in> set questionMappings \<Longrightarrow> recordPushes r (category m) = contributions m r"
  by (cases r)
     (simp_all add: recordPushes_def contributions_def pushedFor_def pushedBy_spec [symmetric]
        concat_select [OF categories_distinct])

lemma pushes_collected:
  "m \<in> set questionMappings \<Longrightarrow>
   concat (map (\<lambda>r. recordPushes r (category m)) data) = collected m data"
  by (simp add: collected_def recordPushes_spec)

lemma clusterCategory_collectingOf:
  assumes "collectingOf rs cd"
  shows "\<exists>res. clusterCategory cd = Inr res \<and> clusteredFrom rs (fst res)"
proof (cases "rs = []")
  case True
  with assms have "clusterCategory cd = Inr (cd, None)" "clusteredFrom rs cd"
    by (simp_all add: collectingOf_def clusterCategory_def clusteredFrom_def
        enhancedClusterResponsesWithFullExamples_def)
  then show ?thesis by simp
next
  case False
  with assms show ?thesis
    by (simp add: collectingOf_def clusterCategory_def clusteredFrom_def Let_def)
qed

lemma clusterSteps_exact:
  assumes "\<forall>e\<in>set cats. collectingOf (F (fst e)) (snd e)"
  shows "\<exists>res out. forEachM clusterStep acc cats = Inr res \<and> fst res = fst acc @ out \<and>
           list_all2 (\<lambda>e e'. fst e' = fst e \<and> clusteredFrom (F (fst e)) (snd e')) cats out"
  using assms
proof (induction cats arbitrary: acc)
  case Nil
  then show ?case by simp
next
  case (Cons e cats)
  then have "collectingOf (F (fst e)) (snd e)" by simp
  then obtain res where res: "clusterCategory (snd e) = Inr res" "clusteredFrom (F (fst e)) (fst res)"
    using clusterCategory_collectingOf by blast
  let ?acc = "(fst acc @ [(fst e, fst res)],
               (case snd res of None \<Rightarrow> snd acc | Some cst \<Rightarrow> snd acc @ [(fst e, cst)]))"
  have step: "clusterStep acc e = Inr ?acc"
    using res(1) by (simp add: clusterStep_def)
  from Cons have "\<forall>e\<in>set cats. collectingOf (F (fst e)) (snd e)" by simp
  from Cons.IH [OF this, of ?acc] obtain r out where
    r: "forEachM clusterStep ?acc cats = Inr r" "fst r = fst ?acc @ out"
    "list_all2 (\<lambda>e e'. fst e' = fst e \<and> clusteredFrom (F (fst e)) (snd e')) cats out"
    by blast
  have "forEachM clusterStep acc (e # cats) = Inr r \<and> fst r = fst acc @ ((fst e, fst res) # out) \<and>
        list_all2 (\<lambda>e e'. fst e' = fst e \<and> clusteredFrom (F (fst e)) (snd e')) (e # cats)
          ((fst e, fst res) # out)"
    using r res(2) by (simp add: step)
  then show ?case by blast
qed

text \<open>
  Every run of \<open>aggregateResponses\<close> that ends without an exception has collected, for
  each category, exactly the contributions of the records, in their order.
\<close>

lemma aggregate_collected:
  assumes "aggregateResponses data = Inr agg"
  shows "list_all2 (\<lambda>m e. fst e = category m \<and> clusteredFrom (collected m data) (snd e))
           questionMappings (byCategory agg)"
proof -
  from assms obtain st res where st: "forEachM processResponse initState data = Inr st"
    and res: "forEachM clusterStep ([], []) (s_byCategory st) = Inr res"
    and agg: "byCategory agg = fst res"
    by (auto simp: aggregateResponses_def split: sum.splits)
  let ?H = "\<lambda>k. concat (map (\<lambda>r. recordPushes r k) data)"
  have "tracked (\<lambda>k. []) (s_byCategory initState)"
    unfolding tracked_def initState_def
    by (auto simp: initCategory_def collectingOf_def dest!: map_of_SomeD)
  from records_tracked [OF st this]
  have tr: "tracked ?H (s_byCategory st)"
    and keys: "map fst (s_byCategory st) = map category questionMappings"
    by (simp_all add: initState_def initCategory_def comp_def)
  from keys have dist: "distinct (map fst (s_byCategory st))"
    by (simp add: categories_distinct)
  have "\<forall>e\<in>set (s_byCategory st). collectingOf (?H (fst e)) (snd e)"
  proof
    fix e
    assume "e \<in> set (s_byCategory st)"
    with dist have "map_of (s_byCategory st) (fst e) = Some (snd e)"
      by simp
    with tr show "collectingOf (?H (fst e)) (snd e)"
      by (simp add: tracked_def)
  qed
  from clusterSteps_exact [OF this, of "([], [])"] res agg
  have out: "list_all2 (\<lambda>e e'. fst e' = fst e \<and> clusteredFrom (?H (fst e)) (snd e'))
               (s_byCategory st) (byCategory agg)"
    by simp
  have len: "length (s_byCategory st) = length questionMappings"
    using arg_cong [OF keys, of length] by simp
  show ?thesis
    unfolding list_all2_conv_all_nth
  proof (intro conjI allI impI)
    show "length questionMappings = length (byCategory agg)"
      using out len by (simp add: list_all2_conv_all_nth)
  next
    fix i
    assume i: "i < length questionMappings"
    then have m: "questionMappings ! i \<in> set questionMappings"
      by simp
    from i len have k: "fst (s_byCategory st ! i) = category (questionMappings ! i)"
      using arg_cong [OF keys, of "\<lambda>xs. xs ! i"] by simp
    from out i len have
      "fst (byCategory agg ! i) = fst (s_byCategory st ! i) \<and>
       clusteredFrom (?H (fst (s_byCategory st ! i))) (snd (byCategory agg ! i))"
      by (simp add: list_all2_conv_all_nth)
    then show "fst (byCategory agg ! i) = category (questionMappings ! i)"
      and "clusteredFrom (collected (questionMappings ! i) data) (snd (byCategory agg ! i))"
      by (simp_all add: k pushes_collected [OF m])
  qed
qed

text \<open>Records without a leader never make the run throw.\<close>

lemma forEachM_total:
  assumes "I s" and "\<And>s x. I s \<Longrightarrow> x \<in> set xs \<Longrightarrow> \<exists>s'. f s x = Inr s' \<and> I s'"
  shows "\<exists>s'. forEachM f s xs = Inr s' \<and> I s'"
  using assms
proof (induction xs arbitrary: s)
  case Nil
  then show ?case by simp
next
  case (Cons x xs)
  from Cons.prems obtain s1 where s1: "f s x = Inr s1" "I s1"
    by fastforce
  from Cons.IH [OF s1(2)] Cons.prems(2) obtain s' where "forEachM f s1 xs = Inr s'" "I s'"
    by fastforce
  with s1 show ?case by simp
qed

lemma processText_anonymous:
  "collecting (fst st) \<Longrightarrow> \<exists>st'. processText None d st t = Inr st' \<and> collecting (fst st')"
  by (auto simp: processText_def collecting_def updateLeader_def Let_def
      simp del: isValidTextResponse.simps split: option.splits)

lemma processMapping_anonymous:
  assumes "list_all (\<lambda>e. collecting (snd e)) (fst st)"
    and "category m \<in> fst ` set (fst st)"
  shows "\<exists>st'. processMapping kvs None d st m = Inr st' \<and>
           list_all (\<lambda>e. collecting (snd e)) (fst st') \<and> map fst (fst st') = map fst (fst st)"
proof -
  from assms(2) obtain cd where cd: "map_of (fst st) (category m) = Some cd"
    by (metis domD dom_map_of_conv_image_fst)
  then have "(category m, cd) \<in> set (fst st)"
    by (rule map_of_SomeD)
  with assms(1) have "collecting cd"
    by (auto simp: list_all_iff)
  have "\<exists>res. forEachM (processText None d) (cd, snd st) (extractTextFromResponse kvs m) = Inr res \<and>
               collecting (fst res)"
  proof (rule forEachM_total [where I = "\<lambda>s. collecting (fst s)"])
    show "collecting (fst (cd, snd st))"
      using \<open>collecting cd\<close> by simp
  next
    fix s :: "CategoryData \<times> (string \<Rightarrow> LeaderData option)" and x
    assume "collecting (fst s)"
    then show "\<exists>s'. processText None d s x = Inr s' \<and> collecting (fst s')"
      by (rule processText_anonymous)
  qed
  then obtain res where
    "forEachM (processText None d) (cd, snd st) (extractTextFromResponse kvs m) = Inr res"
    by blast
  with cd have "\<exists>st'. processMapping kvs None d st m = Inr st'"
    by (simp add: processMapping_def)
  with assms(1) show ?thesis
    using processMapping_inv by blast
qed

lemma processResponse_anonymous:
  assumes "list_all (\<lambda>e. collecting (snd e)) (s_byCategory st)"
    and "map fst (s_byCategory st) = map category questionMappings"
    and "map_of kvs ''_steamLeader'' = None"
  shows "\<exists>st'. processResponse st (RObj kvs) = Inr st' \<and>
           list_all (\<lambda>e. collecting (snd e)) (s_byCategory st') \<and>
           map fst (s_byCategory st') = map category questionMappings"
proof -
  let ?d = "recordDepartment kvs"
  let ?I = "\<lambda>s :: (string \<times> CategoryData) list \<times> (string \<Rightarrow> LeaderData option).
              list_all (\<lambda>e. collecting (snd e)) (fst s) \<and>
              map fst (fst s) = map category questionMappings"
  have "\<exists>res. forEachM (processMapping kvs None ?d) (s_byCategory st, s_byLeader st)
                questionMappings = Inr res \<and> ?I res"
  proof (rule forEachM_total [where I = ?I])
    show "?I (s_byCategory st, s_byLeader st)"
      using assms(1,2) by simp
  next
    fix s x
    assume s: "?I s" and x: "x \<in> set questionMappings"
    then have "category x \<in> fst ` set (fst s)"
      by (metis image_eqI list.set_map)
    with s processMapping_anonymous [of s x kvs ?d]
    show "\<exists>s'. processMapping kvs None ?d s x = Inr s' \<and> ?I s'"
      by auto
  qed
  then obtain res where
    "forEachM (processMapping kvs None ?d) (s_byCategory st, s_byLeader st) questionMappings = Inr res"
    "?I res"
    by blast
  with assms(3) show ?thesis
    by (simp add: Let_def recordDepartment_def)
qed

lemma anonymous_total:
  assumes "\<And>r. r \<in> set data \<Longrightarrow> \<exists>kvs. r = RObj kvs \<and> map_of kvs ''_steamLeader'' = None"
  shows "\<exists>agg. aggregateResponses data = Inr agg"
proof -
  let ?I = "\<lambda>s :: AggState. list_all (\<lambda>e. collecting (snd e)) (s_byCategory s) \<and>
                map fst (s_byCategory s) = map category questionMappings"
  have "\<exists>st. forEachM processResponse initState data = Inr st \<and> ?I st"
  proof (rule forEachM_total [where I = ?I])
    show "?I initState"
      by (simp add: initState_def list_all_iff initCategory_def collecting_def comp_def)
  next
    fix s :: AggState and x
    assume "?I s" and "x \<in> set data"
    with assms processResponse_anonymous [of s] show "\<exists>s'. processResponse s x = Inr s' \<and> ?I s'"
      by blast
  qed
  then obtain st where "forEachM processResponse initState data = Inr st"
    by blast
  from aggregate_total [OF this] show ?thesis
    by blast
qed

lemma fullOriginal_make: "fullOriginal (makeRawResponse l d t) = t"
  by (simp add: makeRawResponse_def Let_def)

lemma collected_originals:
  "map fullOriginal (collected m data) =
   concat (map (\<lambda>r. case r of RObj kvs \<Rightarrow> filter validString (candidateStrings kvs m) | _ \<Rightarrow> [])
             data)"
  by (induction data)
     (auto simp: collected_def contributions_def comp_def fullOriginal_make split: jsrecord.splits)

text \<open>
  Claim C5.  In every result of \<open>aggregateResponses\<close>, the responses counted and
  clustered for a category are exactly the contributions of the records: for each
  record, in order, one response for every value of a column of the category that is a
  string and, trimmed and lower-cased, is not on the denylist and has a trimmed length
  above 8.  Every other value (a non-string, a denylisted string, a string of trimmed
  length 8 or less) contributes nothing: \<open>totalResponses\<close> and \<open>validCount\<close> count the
  contributions, and the clusters are those of the contributions.
\<close>

theorem valid_strings_contribute:
  "aggregateResponses data = Inr agg \<Longrightarrow>
   list_all2 (\<lambda>mapping entry.
                fst entry = category mapping \<and>
                totalResponses (snd entry) = length (collected mapping data) \<and>
                validCount (processingStats (snd entry)) = length (collected mapping data) \<and>
                clusters (snd entry) =
                  enhancedClusterResponsesWithFullExamples (collected mapping data))
     questionMappings (byCategory agg)"
  using aggregate_collected [of data agg]
  by (auto simp: clusteredFrom_def elim!: list_all2_mono)

theorem valid_strings_contribute_witness:
  "\<exists>agg. aggregateResponses filterSample = Inr agg \<and>
         list_all2 (\<lambda>mapping entry.
                      fst entry = category mapping \<and>
                      totalResponses (snd entry) = length (collected mapping filterSample) \<and>
                      validCount (processingStats (snd entry)) =
                        length (collected mapping filterSample) \<and>
                      clusters (snd entry) =
                        enhancedClusterResponsesWithFullExamples (collected mapping filterSample))
           questionMappings (byCategory agg) \<and>
         map fullOriginal (collected (questionMappings ! 2) filterSample) = [''It's okay'']"
proof -
  have "\<exists>agg. aggregateResponses filterSample = Inr agg"
    by (rule anonymous_total) (auto simp: filterSample_def)
  then obtain agg where agg: "aggregateResponses filterSample = Inr agg"
    by blast
  have h: "list_ex (\<lambda>pattern. rx_test pattern ''barriers'') (patterns (questionMappings ! 2))"
    by code_simp
  have v: "validString ''It's okay''" "\<not> validString ''N/A''" "\<not> validString ''  none  ''"
    by code_simp+
  have c: "map fullOriginal (collected (questionMappings ! 2) filterSample) = [''It's okay'']"
    unfolding collected_originals
    by (simp add: filterSample_def candidateStrings_def h v)
  from agg valid_strings_contribute [OF agg] c show ?thesis
    by (intro exI [of _ agg] conjI)
qed

section \<open>The emitted cluster list\<close>

lemma mergedClusters_Nil: "mergedClusters [] = []"
  by (simp add: mergedClusters_def sortByLength_def clusteringPass_def
      postProcessClustersWithExamples_def sortByCount_def)

lemma enhancedCluster_take:
  "enhancedClusterResponsesWithFullExamples responses = take 40 (mergedClusters responses)"
  by (simp add: enhancedClusterResponsesWithFullExamples_def mergedClusters_Nil)

lemma sortByCount_sorted: "sorted_wrt (\<lambda>a b. count b \<le> count a) (sortByCount cs)"
proof -
  have "sorted (map (\<lambda>c. - int (count c)) (sortByCount cs))"
    unfolding sortByCount_def by (rule sorted_sort_key)
  then show ?thesis
    by (simp add: sorted_map)
qed

lemma enhancedCluster_sorted:
  "sorted_wrt (\<lambda>a b. count b \<le> count a) (enhancedClusterResponsesWithFullExamples responses)"
  unfolding enhancedCluster_take mergedClusters_def
  by (rule sorted_wrt_take) (rule sortByCount_sorted)

text \<open>The evaluation of \<open>aggregateResponses\<close> on the sample survey.\<close>

lemma sample_run:
  "(case aggregateResponses sampleData of
      Inl e \<Rightarrow> []
    | Inr agg \<Rightarrow>
        map (\<lambda>e. (fst e, validCount (processingStats (snd e)),
                  (case rawResponses (snd e) of None \<Rightarrow> True | Some rs \<Rightarrow> False),
                  map count (clusters (snd e))))
          (byCategory agg)) =
   [(''fulfilling_work'', 0, False, []), (''role_clarity'', 0, False, []),
    (''obstacles'', 1, True, [1]), (''empowerment_changes'', 0, False, []),
    (''bold_ideas'', 0, False, []), (''leadership_support'', 0, False, [])]"
  by code_simp

lemma sample_result:
  "\<exists>agg. aggregateResponses sampleData = Inr agg \<and> length (byCategory agg) = 6 \<and>
         validCount (processingStats (snd (byCategory agg ! 2))) = 1 \<and>
         map count (clusters (snd (byCategory agg ! 2))) = [1] \<and>
         validCount (processingStats (snd (byCategory agg ! 0))) = 0"
proof (cases "aggregateResponses sampleData")
  case (Inl e)
  with sample_run show ?thesis by simp
next
  case (Inr agg)
  let ?f = "\<lambda>e. (fst e, validCount (processingStats (snd e)),
               (case rawResponses (snd e) of None \<Rightarrow> True | Some rs \<Rightarrow> False),
               map count (clusters (snd e)))"
  from Inr sample_run have run:
    "map ?f (byCategory agg) =
     [(''fulfilling_work'', 0, False, []), (''role_clarity'', 0, False, []),
      (''obstacles'', 1, True, [1]), (''empowerment_changes'', 0, False, []),
      (''bold_ideas'', 0, False, []), (''leadership_support'', 0, False, [])]"
    by simp
  have len: "length (byCategory agg) = 6"
    using arg_cong [OF run, of length] by simp
  have "?f (byCategory agg ! 2) = (''obstacles'', 1, True, [1])"
    using arg_cong [OF run, of "\<lambda>xs. xs ! 2"] len by simp
  moreover have "?f (byCategory agg ! 0) = (''fulfilling_work'', 0, False, [])"
    using arg_cong [OF run, of "\<lambda>xs. xs ! 0"] len by simp
  ultimately show ?thesis
    using Inr len by simp
qed

text \<open>
  Claim C9.  The cluster list returned for a category is in descending order of
  \<open>count\<close> and has at most 40 elements, for every list of responses; so is the
  \<open>clusters\<close> list of every category in every result of \<open>aggregateResponses\<close>.
\<close>

theorem clusters_sorted_capped:
  "sorted_wrt (\<lambda>a b. count b \<le> count a) (enhancedClusterResponsesWithFullExamples responses) \<and>
   length (enhancedClusterResponsesWithFullExamples responses) \<le> 40 \<and>
   (aggregateResponses data = Inr agg \<longrightarrow>
      list_all (\<lambda>e. sorted_wrt (\<lambda>a b. count b \<le> count a) (clusters (snd e)) \<and>
                    length (clusters (snd e)) \<le> 40)
        (byCategory agg))"
proof -
  have len: "length (enhancedClusterResponsesWithFullExamples rs) \<le> 40" for rs
    by (simp add: enhancedCluster_take)
  have "list_all (\<lambda>e. sorted_wrt (\<lambda>a b. count b \<le> count a) (clusters (snd e)) \<and>
                      length (clusters (snd e)) \<le> 40) (byCategory agg)"
    if "aggregateResponses data = Inr agg"
    using aggregate_categories [OF that] len enhancedCluster_sorted
    by (auto simp: list_all_iff clusteredFrom_def)
  with len enhancedCluster_sorted show ?thesis by blast
qed

theorem clusters_sorted_capped_witness:
  "\<exists>agg. aggregateResponses sampleData = Inr agg \<and>
         list_all (\<lambda>e. sorted_wrt (\<lambda>a b. count b \<le> count a) (clusters (snd e)) \<and>
                       length (clusters (snd e)) \<le> 40)
           (byCategory agg) \<and>
         list_ex (\<lambda>e. clusters (snd e) \<noteq> []) (byCategory agg)"
proof -
  from sample_result obtain agg where agg: "aggregateResponses sampleData = Inr agg"
    and len: "length (byCategory agg) = 6"
    and cl: "map count (clusters (snd (byCategory agg ! 2))) = [1]"
    by auto
  from len have "byCategory agg ! 2 \<in> set (byCategory agg)"
    by simp
  moreover from cl have "clusters (snd (byCategory agg ! 2)) \<noteq> []"
    by auto
  ultimately have "list_ex (\<lambda>e. clusters (snd e) \<noteq> []) (byCategory agg)"
    unfolding list_ex_iff by (rule rev_bexI)
  with agg clusters_sorted_capped [of "[]" sampleData agg] show ?thesis by blast
qed

text \<open>
  Claim C1.  For every list of responses of a category, the counts of the clusters
  that the clustering pass and the post-merge pass produce add up to the number of
  responses, before the final \<open>slice(0, 40)\<close> that yields the emitted list.  In every
  result of \<open>aggregateResponses\<close>, each category's clusters are such a truncated list
  whose counts added up to the number of valid responses counted for the category.
\<close>

theorem count_conservation:
  "sum_list (map count (mergedClusters responses)) = length responses \<and>
   enhancedClusterResponsesWithFullExamples responses = take 40 (mergedClusters responses) \<and>
   (aggregateResponses data = Inr agg \<longrightarrow>
      list_all (\<lambda>e. \<exists>rs. clusters (snd e) = take 40 (mergedClusters rs) \<and>
                         sum_list (map count (mergedClusters rs)) =
                           validCount (processingStats (snd e)))
        (byCategory agg))"
proof -
  have "list_all (\<lambda>e. \<exists>rs. clusters (snd e) = take 40 (mergedClusters rs) \<and>
                         sum_list (map count (mergedClusters rs)) =
                           validCount (processingStats (snd e)))
        (byCategory agg)"
    if run: "aggregateResponses data = Inr agg"
    unfolding list_all_iff
  proof
    fix e
    assume "e \<in> set (byCategory agg)"
    with aggregate_categories [OF run] obtain rs where "clusteredFrom rs (snd e)"
      by (auto simp: list_all_iff)
    then have "clusters (snd e) = take 40 (mergedClusters rs) \<and>
               sum_list (map count (mergedClusters rs)) = validCount (processingStats (snd e))"
      by (simp add: clusteredFrom_def enhancedCluster_take mergedClusters_count)
    then show "\<exists>rs. clusters (snd e) = take 40 (mergedClusters rs) \<and>
                    sum_list (map count (mergedClusters rs)) = validCount (processingStats (snd e))"
      by (rule exI)
  qed
  then show ?thesis
    by (simp add: mergedClusters_count enhancedCluster_take)
qed

theorem count_conservation_witness:
  "\<exists>agg. aggregateResponses sampleData = Inr agg \<and>
         list_all (\<lambda>e. \<exists>rs. clusters (snd e) = take 40 (mergedClusters rs) \<and>
                            sum_list (map count (mergedClusters rs)) =
                              validCount (processingStats (snd e)))
           (byCategory agg) \<and>
         list_ex (\<lambda>e. 0 < validCount (processingStats (snd e))) (byCategory agg)"
proof -
  from sample_result obtain agg where agg: "aggregateResponses sampleData = Inr agg"
    and len: "length (byCategory agg) = 6"
    and vc: "validCount (processingStats (snd (byCategory agg ! 2))) = 1"
    by blast
  from len have "byCategory agg ! 2 \<in> set (byCategory agg)"
    by simp
  moreover from vc have "0 < validCount (processingStats (snd (byCategory agg ! 2)))"
    by simp
  ultimately have "list_ex (\<lambda>e. 0 < validCount (processingStats (snd e))) (byCategory agg)"
    unfolding list_ex_iff by (rule rev_bexI)
  with agg count_conservation [of "[]" sampleData agg] show ?thesis by blast
qed

text \<open>
  Claim C10.  In every result of \<open>aggregateResponses\<close>, a category that counted at
  least one valid response has lost its \<open>rawResponses\<close> property, and a category that
  counted none still has it, as the empty array.
\<close>

theorem rawResponses_shape:
  "aggregateResponses data = Inr agg \<Longrightarrow>
   list_all (\<lambda>e. (0 < validCount (processingStats (snd e)) \<longrightarrow> rawResponses (snd e) = None) \<and>
                 (validCount (processingStats (snd e)) = 0 \<longrightarrow> rawResponses (snd e) = Some []))
     (byCategory agg)"
  using aggregate_categories [of data agg]
  by (auto simp: list_all_iff clusteredFrom_def)

theorem rawResponses_shape_witness:
  "\<exists>agg. aggregateResponses sampleData = Inr agg \<and>
         list_ex (\<lambda>e. 0 < validCount (processingStats (snd e)) \<and> rawResponses (snd e) = None)
           (byCategory agg) \<and>
         list_ex (\<lambda>e. validCount (processingStats (snd e)) = 0 \<and> rawResponses (snd e) = Some [])
           (byCategory agg)"
proof -
  from sample_result obtain agg where agg: "aggregateResponses sampleData = Inr agg"
    and len: "length (byCategory agg) = 6"
    and v1: "validCount (processingStats (snd (byCategory agg ! 2))) = 1"
    and v0: "validCount (processingStats (snd (byCategory agg ! 0))) = 0"
    by blast
  from len have mem: "byCategory agg ! 2 \<in> set (byCategory agg)"
    "byCategory agg ! 0 \<in> set (byCategory agg)"
    by simp_all
  with rawResponses_shape [OF agg] v1 v0
  have r: "rawResponses (snd (byCategory agg ! 2)) = None"
    "rawResponses (snd (byCategory agg ! 0)) = Some []"
    by (auto simp: list_all_iff)
  from v1 r(1) have "0 < validCount (processingStats (snd (byCategory agg ! 2))) \<and>
      rawResponses (snd (byCategory agg ! 2)) = None"
    by simp
  with mem(1) have
    "list_ex (\<lambda>e. 0 < validCount (processingStats (snd e)) \<and> rawResponses (snd e) = None)
       (byCategory agg)"
    unfolding list_ex_iff by (rule rev_bexI)
  moreover from v0 r(2) have "validCount (processingStats (snd (byCategory agg ! 0))) = 0 \<and>
      rawResponses (snd (byCategory agg ! 0)) = Some []"
    by simp
  with mem(2) have
    "list_ex (\<lambda>e. validCount (processingStats (snd e)) = 0 \<and> rawResponses (snd e) = Some [])
       (byCategory agg)"
    unfolding list_ex_iff by (rule rev_bexI)
  ultimately show ?thesis
    using agg by blast
qed

section \<open>Empty and malformed input\<close>

lemma clusterCategory_init:
  "clusterCategory (snd (initCategory m)) = Inr (snd (initCategory m), None)"
  by (simp add: clusterCategory_def initCategory_def)

lemma clusterSteps_init:
  "forEachM clusterStep acc (map initCategory ms) =
     Inr (fst acc @ map initCategory ms, snd acc)"
proof (induction ms arbitrary: acc)
  case Nil
  then show ?case by simp
next
  case (Cons m ms)
  have "clusterStep acc (initCategory m) = Inr (fst acc @ [initCategory m], snd acc)"
    by (simp add: clusterStep_def clusterCategory_init)
  then show ?case
    by (simp add: Cons.IH)
qed

lemma aggregate_empty:
  "aggregateResponses [] =
     Inr \<lparr> byCategory = map initCategory questionMappings,
           byLeader = Map.empty,
           totalResponses_a = 0,
           metadata = \<lparr> uniqueLeaderCount = 0, uniqueDepartmentCount = 0, clusteringStats = [] \<rparr> \<rparr>"
  by (simp add: aggregateResponses_def initState_def clusterSteps_init)

text \<open>
  Claim C7.  On the empty array \<open>aggregateResponses\<close> returns normally; the result
  holds the six configured categories, in their order, each with no clusters and
  \<open>totalResponses\<close> zero.
\<close>

theorem empty_input:
  "\<exists>agg. aggregateResponses [] = Inr agg \<and>
         map fst (byCategory agg) =
           [''fulfilling_work'', ''role_clarity'', ''obstacles'', ''empowerment_changes'',
            ''bold_ideas'', ''leadership_support''] \<and>
         list_all (\<lambda>e. clusters (snd e) = [] \<and> totalResponses (snd e) = 0) (byCategory agg)"
  by (simp add: aggregate_empty questionMappings_def initCategory_def)

lemma error_unique: "(e :: error) = TypeError"
  by (cases e) simp

lemma forEachM_append:
  "forEachM f s (xs @ ys) = (case forEachM f s xs of Inl e \<Rightarrow> Inl e | Inr s' \<Rightarrow> forEachM f s' ys)"
  by (induction xs arbitrary: s) (auto split: sum.splits)

lemma records_throw:
  assumes "r \<in> set data" and "\<And>s. processResponse s r = Inl TypeError"
  shows "forEachM processResponse st data = Inl TypeError"
  using assms(1)
proof (induction data arbitrary: st)
  case Nil
  then show ?case by simp
next
  case (Cons x data)
  show ?case
  proof (cases "processResponse st x")
    case (Inl e)
    then show ?thesis by (simp add: error_unique [of e])
  next
    case (Inr st')
    with Cons assms(2) show ?thesis by auto
  qed
qed

lemma processMapping_no_text:
  "extractTextFromResponse kvs m = [] \<Longrightarrow> processMapping kvs l d st m = Inr st"
  by (cases "map_of (fst st) (category m)")
     (simp_all add: processMapping_def AList.update_triv)

lemma mappings_no_text:
  "(\<And>m. m \<in> set ms \<Longrightarrow> extractTextFromResponse kvs m = []) \<Longrightarrow>
   forEachM (processMapping kvs l d) st ms = Inr st"
  by (induction ms) (simp_all add: processMapping_no_text)

lemma processResponse_empty_object:
  "\<exists>st'. processResponse st (RObj []) = Inr st' \<and> sameCore st st'"
proof -
  have "forEachM (processMapping [] None (JStr ''Unknown'')) (s_byCategory st, s_byLeader st)
          questionMappings = Inr (s_byCategory st, s_byLeader st)"
    by (rule mappings_no_text) (simp add: extractTextFromResponse_def)
  then show ?thesis
    by (simp add: sameCore_def)
qed

lemma processResponse_core:
  assumes "sameCore s1 s2"
  shows "rel_sum (\<lambda>a b. True) sameCore (processResponse s1 r) (processResponse s2 r)"
proof (cases r)
  case RNull
  then show ?thesis by simp
next
  case RUndefined
  then show ?thesis by simp
next
  case (RObj kvs)
  with assms show ?thesis
    by (auto simp: sameCore_def Let_def split: sum.splits)
qed

lemma records_core:
  "sameCore s1 s2 \<Longrightarrow>
   rel_sum (\<lambda>a b. True) sameCore (forEachM processResponse s1 rs) (forEachM processResponse s2 rs)"
proof (induction rs arbitrary: s1 s2)
  case Nil
  then show ?case by simp
next
  case (Cons r rs)
  from processResponse_core [OF Cons.prems, of r] show ?case
    by (cases "processResponse s1 r"; cases "processResponse s2 r") (auto intro: Cons.IH)
qed

lemma empty_object_skipped:
  "map_sum id byCategory (aggregateResponses (xs @ RObj [] # ys)) =
   map_sum id byCategory (aggregateResponses (xs @ ys))"
proof (cases "forEachM processResponse initState xs")
  case (Inl e)
  then show ?thesis
    by (simp add: aggregateResponses_def forEachM_append)
next
  case (Inr s)
  obtain s' where s': "processResponse s (RObj []) = Inr s'" "sameCore s s'"
    using processResponse_empty_object by blast
  have with_r: "forEachM processResponse initState (xs @ RObj [] # ys) = forEachM processResponse s' ys"
    using Inr s'(1) by (simp add: forEachM_append)
  have without: "forEachM processResponse initState (xs @ ys) = forEachM processResponse s ys"
    using Inr by (simp add: forEachM_append)
  from records_core [OF s'(2), of ys] show ?thesis
    unfolding aggregateResponses_def with_r without
    by (cases "forEachM processResponse s ys"; cases "forEachM processResponse s' ys")
       (auto simp: sameCore_def split: sum.splits intro: trans [OF error_unique error_unique [symmetric]])
qed

text \<open>
  Claim C6 fails: a \<open>null\<close> record is not skipped.  Reading \<open>response._steamLeader\<close>
  throws, and nothing in \<open>aggregateResponses\<close> catches the exception.
\<close>

theorem null_record_counterexample:
  "aggregateResponses [RNull] = Inl TypeError"
  by (simp add: aggregateResponses_def)

text \<open>
  Claim C6, amended.  Every input array that contains \<open>null\<close> or \<open>undefined\<close> makes
  \<open>aggregateResponses\<close> throw a TypeError.  The record that is passed over is the
  mapping without fields: with or without an empty object in the array, the run ends
  the same way, and with the same result for every category.
\<close>

theorem null_record_throws:
  "(RNull \<in> set data \<or> RUndefined \<in> set data \<longrightarrow> aggregateResponses data = Inl TypeError) \<and>
   map_sum id byCategory (aggregateResponses (xs @ RObj [] # ys)) =
     map_sum id byCategory (aggregateResponses (xs @ ys))"
proof -
  have "aggregateResponses data = Inl TypeError" if "RNull \<in> set data \<or> RUndefined \<in> set data"
  proof -
    from that have "forEachM processResponse initState data = Inl TypeError"
      by (auto intro: records_throw)
    then show ?thesis
      by (simp add: aggregateResponses_def)
  qed
  with empty_object_skipped show ?thesis by blast
qed

theorem null_record_throws_witness:
  "RNull \<in> set [RObj [], RNull] \<and> aggregateResponses [RObj [], RNull] = Inl TypeError \<and>
   map_sum id byCategory (aggregateResponses ([] @ RObj [] # [])) =
     map_sum id byCategory (aggregateResponses ([] @ []))"
  using null_record_throws [of "[RObj [], RNull]" "[]" "[]"] by simp

section \<open>The absorption rule\<close>

lemma set_add_acc:
  "set (foldl (\<lambda>acc x. set_add x acc) acc xs) = set acc \<union> set xs \<and>
   (distinct acc \<longrightarrow> distinct (foldl (\<lambda>acc x. set_add x acc) acc xs))"
  by (induction xs arbitrary: acc) (auto simp: set_add_def)

lemma set_new_Set [simp]: "set (new_Set xs) = set xs"
  using set_add_acc [of "[]" xs] by (simp add: new_Set_def)

lemma distinct_new_Set [simp]: "distinct (new_Set xs)"
  using set_add_acc [of "[]" xs] by (simp add: new_Set_def)

lemma length_new_Set: "length (new_Set xs) = card (set xs)"
  using distinct_card [OF distinct_new_Set, of xs] by simp

lemma new_Set_Nil_iff [simp]: "new_Set xs = [] \<longleftrightarrow> xs = []"
  using set_new_Set [of xs] by (metis set_empty)

lemma length_filter_new_Set:
  "length (filter (\<lambda>x. x \<in> B) (new_Set xs)) = card (set xs \<inter> B)"
proof -
  have "distinct (filter (\<lambda>x. x \<in> B) (new_Set xs))" by simp
  then have "length (filter (\<lambda>x. x \<in> B) (new_Set xs)) = card (set (filter (\<lambda>x. x \<in> B) (new_Set xs)))"
    by (rule distinct_card [symmetric])
  also have "set (filter (\<lambda>x. x \<in> B) (new_Set xs)) = set xs \<inter> B" by auto
  finally show ?thesis .
qed

lemma split_ws_aux_nonempty: "split_ws_aux insep cur s \<noteq> []"
  by (induction s arbitrary: insep cur) auto

lemma split_ws_nonempty [simp]: "split_ws s \<noteq> []"
  by (simp add: split_ws_def split_ws_aux_nonempty)

lemma fl_zero [simp]: "fl 0 = 0"
  by (simp add: fl_def)

lemma jaccard_iou:
  "calculateJaccardSimilarity text1 text2 = fl (iou (set (split_ws text1)) (set (split_ws text2)))"
proof -
  have ne: "set (split_ws text1) \<union> set (split_ws text2) \<noteq> {}" by simp
  have "length (new_Set (filter (\<lambda>x. x \<in> set (new_Set (split_ws text2))) (new_Set (split_ws text1)))) =
        card (set (split_ws text1) \<inter> set (split_ws text2))"
    by (simp add: length_new_Set) (metis Int_def Collect_conj_eq Collect_mem_eq inf_commute)
  then show ?thesis
    using ne by (simp add: calculateJaccardSimilarity_def iou_def ddiv_def length_new_Set Let_def)
qed

lemma semantic_iou:
  "calculateSemanticSimilarity tokens1 tokens2 = fl (iou (set tokens1) (set tokens2))"
proof (cases "tokens1 = [] \<or> tokens2 = []")
  case True
  then show ?thesis
    by (auto simp: calculateSemanticSimilarity_def iou_def)
next
  case False
  then show ?thesis
    by (simp add: calculateSemanticSimilarity_def iou_def ddiv_def length_new_Set
        length_filter_new_Set Let_def)
qed

lemma split_char_aux_nonempty: "split_char_aux sep cur s \<noteq> []"
  by (induction s arbitrary: cur) auto

lemma theme_similarity_overlap:
  "calculateThemeSimilarity text1 text2 =
     labelOverlapSimilarity (enhancedExtractTheme text1) (enhancedExtractTheme text2)"
proof -
  have "0 < length (split_char CHR ''_'' l)" for l
    by (simp add: split_char_def split_char_aux_nonempty)
  then show ?thesis
    by (simp add: calculateThemeSimilarity_def labelOverlapSimilarity_def Let_def ddiv_def
        max_def)
qed

lemma combined_rounded: "combinedSimilarity a b = roundedScore a b"
  by (simp add: combinedSimilarity_def roundedScore_def jaccard_iou semantic_iou
      theme_similarity_overlap)

text \<open>
  The indices that the inner loop adds to \<open>processed\<close> for the seed at \<open>idx\<close>: the later
  ones that were not processed and whose score against the seed exceeds the threshold.
\<close>

lemma clusterInner_processed:
  "snd (foldl (clusterInner rs idx) (c0, P0) [0..<k]) =
     P0 \<union> {j. idx < j \<and> j < k \<and> j \<notin> P0 \<and> fl (45 / 100) < combinedSimilarity (rs ! idx) (rs ! j)}"
proof (induction k)
  case 0
  then show ?case by simp
next
  case (Suc k)
  let ?st = "foldl (clusterInner rs idx) (c0, P0) [0..<k]"
  have "snd (clusterInner rs idx ?st k) =
        (if idx < k \<and> k \<notin> snd ?st \<and> fl (45 / 100) < combinedSimilarity (rs ! idx) (rs ! k)
         then insert k (snd ?st) else snd ?st)"
    by (auto simp: clusterInner_def)
  then show ?case
    using Suc by (auto simp: less_Suc_eq)
qed

lemma absorb_effect:
  "count (absorb cluster other) = count cluster + 1 \<and>
   examples (absorb cluster other) =
     (if length (examples cluster) < 8 then examples cluster @ [fullOriginal other]
      else examples cluster) \<and>
   set (leaders (absorb cluster other)) =
     set (leaders cluster) \<union> {l. l = leader other \<and> l \<noteq> None \<and> l \<noteq> Some []} \<and>
   set (departments (absorb cluster other)) =
     set (departments cluster) \<union> {d. d = department other \<and> truthy d} \<and>
   set (semanticSignature (absorb cluster other)) =
     set (semanticSignature cluster) \<union> set (semanticTokens other)"
  by (auto simp: absorb_def set_add_def split: option.splits)

text \<open>The two pairs are what the reading of the records builds from their answers.\<close>

lemma boundary_pair_made:
  "map (makeRawResponse None (JStr ''Unknown''))
     [''talk tools goals system aa bb'', ''talk tools goals'', ''apple apple aa ab''] =
   [boundarySeed, boundaryCandidate, repeatedSeed]"
  by code_simp

lemma boundary_pair_claimed:
  "claimedScore boundarySeed boundaryCandidate = 45 / 100"
  by code_simp

lemma boundary_pair_eval:
  "fl (45 / 100) < combinedSimilarity boundarySeed boundaryCandidate"
  by code_simp

lemma repeated_pair_claimed:
  "claimedScore repeatedSeed (labelledResponse answerA) = 375 / 1000"
  by code_simp

lemma repeated_pair_eval:
  "fl (45 / 100) < combinedSimilarity repeatedSeed (labelledResponse answerA)"
  by code_simp

text \<open>
  Claim C2 fails as worded, in two ways.  The first pair scores exactly 0.45, which
  does not exceed 0.45, and the candidate is absorbed: the source adds the doubles
  nearest to 0.15 and 0.3, and the sum is a double above the one nearest to 0.45.  The
  second pair shares one label word, \<open>apple\<close>, of two, so it scores 0.375, and the
  candidate is absorbed: the source counts both occurrences of \<open>apple\<close> in the seed's
  label and takes the theme similarity to be 1.
\<close>

theorem claimed_score_counterexample:
  "claimedScore boundarySeed boundaryCandidate \<le> 45 / 100 \<and>
   clusterInner [boundarySeed, boundaryCandidate] 0 (seedCluster boundarySeed, {0}) 1 =
     (absorb (seedCluster boundarySeed) boundaryCandidate, {0, 1}) \<and>
   claimedScore repeatedSeed (labelledResponse answerA) \<le> 45 / 100 \<and>
   clusterInner [repeatedSeed, labelledResponse answerA] 0 (seedCluster repeatedSeed, {0}) 1 =
     (absorb (seedCluster repeatedSeed) (labelledResponse answerA), {0, 1})"
  using boundary_pair_eval repeated_pair_eval
  by (simp add: boundary_pair_claimed repeated_pair_claimed clusterInner_def insert_commute)

text \<open>
  Claim C2, amended.  The score that decides is the one in binary64 arithmetic, with
  the theme similarity that counts every occurrence of a word of the seed's label: it
  is 0.3 times the intersection over union of the white-space-split words of the two
  normalised texts, plus 0.4 times that of the two token sets, plus 0.3 times the
  theme similarity, each operation rounded to a double.  For the seed at \<open>idx\<close> and a
  later index that is not processed, the candidate is absorbed and marked processed
  exactly when that score exceeds the double nearest to 0.45; so the inner loop marks
  exactly the later unprocessed indices that score above it.  An absorption adds one to
  \<open>count\<close>, appends the candidate's \<open>fullOriginal\<close> when fewer than 8 examples are
  stored, adds the candidate's leader and department to the Sets, and adds its tokens
  to \<open>semanticSignature\<close>.
\<close>

theorem absorption_rule:
  "combinedSimilarity a b = roundedScore a b \<and>
   (idx < j \<and> j \<notin> P \<longrightarrow>
      clusterInner rs idx (cluster, P) j =
        (if fl (45 / 100) < roundedScore (rs ! idx) (rs ! j)
         then (absorb cluster (rs ! j), insert j P) else (cluster, P))) \<and>
   snd (foldl (clusterInner rs idx) (cluster, P) [0..<length rs]) =
     P \<union> {j. idx < j \<and> j < length rs \<and> j \<notin> P \<and>
              fl (45 / 100) < roundedScore (rs ! idx) (rs ! j)} \<and>
   count (absorb cluster b) = count cluster + 1 \<and>
   examples (absorb cluster b) =
     (if length (examples cluster) < 8 then examples cluster @ [fullOriginal b]
      else examples cluster) \<and>
   set (leaders (absorb cluster b)) =
     set (leaders cluster) \<union> {l. l = leader b \<and> l \<noteq> None \<and> l \<noteq> Some []} \<and>
   set (departments (absorb cluster b)) =
     set (departments cluster) \<union> {d. d = department b \<and> truthy d} \<and>
   set (semanticSignature (absorb cluster b)) =
     set (semanticSignature cluster) \<union> set (semanticTokens b)"
  using absorb_effect [of cluster b] clusterInner_processed [of rs idx cluster P "length rs"]
  by (simp add: combined_rounded clusterInner_def)

lemma sample_response_made:
  "makeRawResponse None (JStr ''Unknown'') ''more tools'' = sampleResponse"
  by code_simp

lemma absorbed_pair_eval:
  "fl (45 / 100) < combinedSimilarity sampleResponse sampleResponse"
  by code_simp

theorem absorption_rule_witness:
  "(0::nat) < 1 \<and> 1 \<notin> {0::nat} \<and>
   clusterInner [sampleResponse, sampleResponse] 0 (seedCluster sampleResponse, {0}) 1 =
     (absorb (seedCluster sampleResponse) sampleResponse, {0, 1}) \<and>
   count (absorb (seedCluster sampleResponse) sampleResponse) = 2 \<and>
   examples (absorb (seedCluster sampleResponse) sampleResponse) = [''more tools'', ''more tools'']"
proof -
  have score: "fl (45 / 100) < roundedScore sampleResponse sampleResponse"
    using absorbed_pair_eval
      absorption_rule [where a = sampleResponse and b = sampleResponse]
    by simp
  show ?thesis
    using score
      absorption_rule [where a = sampleResponse and b = sampleResponse and idx = 0 and j = 1
        and P = "{0}" and rs = "[sampleResponse, sampleResponse]"
        and cluster = "seedCluster sampleResponse"]
    by (simp add: seedCluster_def sampleResponse_def insert_commute)
qed

section \<open>The label of a merged cluster\<close>

text \<open>The six responses are what \<open>aggregateResponses\<close> builds from the three answers.\<close>

lemma six_responses_made:
  "map (makeRawResponse None (JStr ''Unknown'')) [answerA, answerB, answerC] =
   map labelledResponse [answerA, answerB, answerC]"
  by code_simp

text \<open>The clustering pass leaves three clusters, of 1, 3 and 2 responses.\<close>

lemma stale_label_reachable:
  "clusteringPass (sortByLength sixResponses) = threeClusters"
  by code_simp

text \<open>
  Claim C3 asks the merged cluster to carry the label of the larger cluster.  The three
  clusters have labels with the same word set, so the second and the third are merged
  into the first.  The second, of 3 responses, gives its label \<open>grape_apple\<close> to the
  merged cluster; the third, of 2 responses, is then compared with the count 1 that the
  first cluster had before any merge, and replaces the label by its own: the cluster of
  6 responses is labelled \<open>apple_grape\<close>, the label of 3 of them, and not of the largest
  cluster merged.
\<close>

theorem stale_merged_label:
  "map (\<lambda>c. (theme c, count c)) (postProcessClustersWithExamples threeClusters) =
     [(''apple_grape'', 6)] \<and>
   map (\<lambda>c. (theme c, count c)) (postProcessClustersWithExamples (take 2 threeClusters)) =
     [(''grape_apple'', 4)]"
  by code_simp

section \<open>Duplicate examples\<close>

text \<open>
  Claim C8 asks for examples without duplicates.  Two respondents who give the same
  answer are clustered together, and the clustering pass stores the answer twice: only
  the merge of two clusters removes duplicates, and a single cluster is never merged.
\<close>

theorem duplicate_examples:
  "map (\<lambda>c. (count c, examples c))
     (enhancedClusterResponsesWithFullExamples [sampleResponse, sampleResponse]) =
   [(2, [''more tools'', ''more tools''])]"
  by code_simp

end
